theory Spec2Isabelle
  imports Main "HOL-Library.Signed_Division"
begin

section \<open>Keys and midpoints\<close>

text \<open>
  \<^verbatim>\<open>KeyT\<close> is a \<^verbatim>\<open>std::integral\<close> type. A key is modelled by the integer it
  denotes, and \<^verbatim>\<open>KeyT\<close> by its signedness and its width in bits, which decide what
  \<^verbatim>\<open>currBegin + currEnd\<close> is when the sum is not a value of the type: an unsigned
  sum is reduced modulo \<open>2 ^ w\<close>. The overflow of a signed sum is undefined; the model
  gives it the value of two's complement arithmetic, and the statements below that
  need a midpoint to lie inside its span assume that no sum overflows. A \<^verbatim>\<open>KeyT\<close>
  narrower than \<^verbatim>\<open>int\<close> is promoted, so its sums are those of \<open>Signed\<close> with the width
  of \<^verbatim>\<open>int\<close>. The division of \<^verbatim>\<open>const auto mid = (currBegin + currEnd) / 2;\<close> is
  the truncating division of C++, which rounds towards zero and so differs from
  \<open>div\<close> on negative odd sums.
\<close>

datatype KeyT = Unsigned nat | Signed nat

fun wrap :: "KeyT \<Rightarrow> int \<Rightarrow> int" where
  "wrap (Unsigned w) x = x mod 2 ^ w"
| "wrap (Signed w) x = (x + 2 ^ (w - 1)) mod 2 ^ w - 2 ^ (w - 1)"

definition mid :: "KeyT \<Rightarrow> int \<Rightarrow> int \<Rightarrow> int" where
  "mid K currBegin currEnd = wrap K (currBegin + currEnd) sdiv 2"

text \<open>
  The values of a key type, and the key ranges \<open>[begin, end)\<close> inside which no sum
  \<^verbatim>\<open>currBegin + currEnd\<close> of two bounds \<open>begin \<le> currBegin < currEnd \<le> end\<close>
  overflows: the least such sum is \<open>2 * begin + 1\<close> and the greatest \<open>2 * end - 1\<close>.
\<close>

fun fits :: "KeyT \<Rightarrow> int \<Rightarrow> bool" where
  "fits (Unsigned w) x = (0 \<le> x \<and> x < 2 ^ w)"
| "fits (Signed w) x = (0 < w \<and> - (2 ^ (w - 1)) \<le> x \<and> x < 2 ^ (w - 1))"

definition no_overflow :: "KeyT \<Rightarrow> int \<Rightarrow> int \<Rightarrow> bool" where
  "no_overflow K bg en \<longleftrightarrow> fits K (bg + bg + 1) \<and> fits K (en + en - 1)"

lemma wrap_fits: "fits K x \<Longrightarrow> wrap K x = x"
proof (cases K)
  case (Unsigned w)
  then show ?thesis if "fits K x" using that by simp
next
  case (Signed w)
  assume f: "fits K x"
  then obtain w' where w: "w = Suc w'"
    using Signed by (cases w) auto
  have "0 \<le> x + 2 ^ w'" "x + 2 ^ w' < 2 ^ Suc w'"
    using f Signed w by auto
  then have "(x + 2 ^ w') mod 2 ^ Suc w' = x + 2 ^ w'"
    by (rule mod_pos_pos_trivial)
  then show ?thesis
    using Signed w by simp
qed

lemma fits_between: "fits K x \<Longrightarrow> fits K z \<Longrightarrow> x \<le> y \<Longrightarrow> y \<le> z \<Longrightarrow> fits K y"
  by (cases K) auto

lemma no_overflow_sum:
  assumes "no_overflow K bg en" "bg \<le> cb" "cb < ce" "ce \<le> en"
  shows "wrap K (cb + ce) = cb + ce"
proof -
  have f: "fits K (bg + bg + 1)" "fits K (en + en - 1)"
    using assms(1) by (simp_all add: no_overflow_def)
  have "fits K (cb + ce)"
    by (rule fits_between [OF f]) (use assms in arith)+
  then show ?thesis
    by (rule wrap_fits)
qed

lemma no_overflow_span:
  assumes "no_overflow K bg en" "bg \<le> cb" "cb < ce" "ce \<le> en"
  shows "no_overflow K cb ce"
proof -
  have f: "fits K (bg + bg + 1)" "fits K (en + en - 1)"
    using assms(1) by (simp_all add: no_overflow_def)
  have "fits K (cb + cb + 1)"
    by (rule fits_between [OF f]) (use assms in arith)+
  moreover have "fits K (ce + ce - 1)"
    by (rule fits_between [OF f]) (use assms in arith)+
  ultimately show ?thesis
    by (simp add: no_overflow_def)
qed

text \<open>
  Where no sum overflows, the midpoint of a span of at least two keys lies strictly
  inside it; and a span that meets a range without being covered by it has at least
  two keys.
\<close>

lemma mid_between:
  assumes "no_overflow K cb ce" "cb + 2 \<le> ce"
  shows "cb < mid K cb ce \<and> mid K cb ce < ce"
proof -
  have "wrap K (cb + ce) = cb + ce"
    using no_overflow_sum [OF assms(1), of cb ce] assms(2) by simp
  then show ?thesis
    using assms(2) by (auto simp: mid_def signed_divide_int_def sgn_if abs_if)
qed

lemma overlap_not_covered_span:
  "cb < e \<Longrightarrow> b < ce \<Longrightarrow> \<not> (ce \<le> e \<and> b \<le> cb) \<Longrightarrow> cb + 2 \<le> (ce::int)"
  by arith

section \<open>Errors\<close>

text \<open>
  \<^verbatim>\<open>throw std::out_of_range(messageStream.str())\<close> becomes \<open>out_of_range\<close> with the
  message; a failed \<^verbatim>\<open>assert\<close> becomes \<open>assertion_failed\<close>.
\<close>

datatype error = out_of_range string | assertion_failed

fun digits :: "nat \<Rightarrow> string" where
  "digits n = (if n < 10 then [char_of (48 + n)]
               else digits (n div 10) @ [char_of (48 + n mod 10)])"

declare digits.simps [simp del]

text \<open>
  What \<^verbatim>\<open>operator<<\<close> prints for a key: its decimal numeral. (For the character
  types \<^verbatim>\<open>char\<close>, \<^verbatim>\<open>signed char\<close> and \<^verbatim>\<open>unsigned char\<close> it prints the
  character with that code instead, which is one character for each key as well.)
\<close>

definition show_key :: "int \<Rightarrow> string" where
  "show_key k = (if k < 0 then CHR ''-'' # digits (nat (- k)) else digits (nat k))"

section \<open>Nodes (\<^verbatim>\<open>dst/impl/node.hpp\<close>, \<^verbatim>\<open>dst/impl/node_base.hpp\<close>)\<close>

text \<open>
  A \<^verbatim>\<open>Node<T, std::optional<UpdateT>, Allocator>\<close> is a leaf when \<^verbatim>\<open>ptr\<close> is null
  (\<^verbatim>\<open>isLeaf() { return !ptr; }\<close>) and then holds a value in \<^verbatim>\<open>buffer_\<close>; otherwise
  \<^verbatim>\<open>ptr\<close> points to the pair of its children (\<^verbatim>\<open>getLeft() = ptr\<close>,
  \<^verbatim>\<open>getRight() = ptr + 1\<close>) and \<^verbatim>\<open>updateValue_\<close> is the pending update. A node owns
  its children, so the pointer structure is a tree and is modelled as one. The field
  \<^verbatim>\<open>updateValue_\<close> of a leaf is \<^verbatim>\<open>std::nullopt\<close>: the constructors and
  \<^verbatim>\<open>setValue\<close> reset it, and only the non-leaf branch of \<^verbatim>\<open>update\<close> and
  \<^verbatim>\<open>setUpdateValue\<close> (which asserts a non-leaf) write it; hence \<open>Leaf\<close> carries none.

  \<^verbatim>\<open>Node<T, void, Allocator>\<close>, the node of a tree with no update operation, has no
  slot: its nodes are those whose slot is \<open>None\<close>. \<^verbatim>\<open>Node<T, bool, Allocator>\<close>,
  the node of a nullary update operation, is not modelled: it declares no
  \<^verbatim>\<open>setValue\<close>, so that its flag \<^verbatim>\<open>toUpdate_\<close> outlives the \<^verbatim>\<open>setValue\<close> it
  inherits, and no statement below is about a tree of such nodes.
\<close>

datatype ('v, 'u) node =
    Leaf (getValue: 'v)
  | Inner (updateValue: "'u option") (getLeft: "('v, 'u) node") (getRight: "('v, 'u) node")

fun isLeaf :: "('v, 'u) node \<Rightarrow> bool" where
  "isLeaf (Leaf v) = True"
| "isLeaf (Inner p l r) = False"

text \<open>
  \<^verbatim>\<open>Node::setValue\<close>: \<^verbatim>\<open>Base_::setValue\<close> (\<^verbatim>\<open>setOrConstructValue\<close> in
  \<^verbatim>\<open>node_base.hpp\<close>) assigns the value of a leaf, and for a non-leaf runs
  \<^verbatim>\<open>clearChildren\<close> (which destroys the whole subtree and nulls \<^verbatim>\<open>ptr\<close>) and then
  constructs the value; then \<^verbatim>\<open>updateValue_ = std::nullopt\<close>.
\<close>

fun setValue :: "'v \<Rightarrow> ('v, 'u) node \<Rightarrow> ('v, 'u) node" where
  "setValue x (Leaf v) = Leaf x"
| "setValue x (Inner p l r) = Leaf x"

text \<open>
  \<^verbatim>\<open>initChildren\<close> (\<^verbatim>\<open>initChildrenSiftingValue\<close>) when nothing throws: both children
  are leaves that hold the value of the node, whose own value is destroyed. It asserts
  \<^verbatim>\<open>isLeaf()\<close>, and every call is under \<^verbatim>\<open>if (currNode->isLeaf())\<close>; there is no
  equation for a non-leaf.
\<close>

fun initChildren :: "('v, 'u) node \<Rightarrow> ('v, 'u) node" where
  "initChildren (Leaf v) = Inner None (Leaf v) (Leaf v)"

text \<open>
  \<^verbatim>\<open>Node::update(updateOp, updateVal, allocator)\<close>: a non-leaf first hands a pending
  update to both children and then stores the new one; a leaf applies the operator.
\<close>

fun update :: "('v \<Rightarrow> 'u \<Rightarrow> 'v) \<Rightarrow> 'u \<Rightarrow> ('v, 'u) node \<Rightarrow> ('v, 'u) node" where
  "update updateOp updateVal (Leaf v) = Leaf (updateOp v updateVal)"
| "update updateOp updateVal (Inner None l r) = Inner (Some updateVal) l r"
| "update updateOp updateVal (Inner (Some old) l r) =
     Inner (Some updateVal) (update updateOp old l) (update updateOp old r)"

fun siftOptUpdate :: "('v \<Rightarrow> 'u \<Rightarrow> 'v) \<Rightarrow> ('v, 'u) node \<Rightarrow> ('v, 'u) node" where
  "siftOptUpdate updateOp (Leaf v) = Leaf v"
| "siftOptUpdate updateOp (Inner None l r) = Inner None l r"
| "siftOptUpdate updateOp (Inner (Some u) l r) =
     Inner None (update updateOp u l) (update updateOp u r)"

text \<open>
  Modelled from the spec: \<^verbatim>\<open>optionalSiftNodeUpdate_\<close> is declared in
  \<^verbatim>\<open>dst/impl/dynamic_segment_tree_update_variation_base.hpp\<close>, which is not among the
  sources. It is the \<open>sift(U)\<close> of section 4.2: "If a pending update exists, apply it to
  both children (via apply_update) and clear the slot. No-op when no pending exists",
  which is what \<^verbatim>\<open>Node::siftOptUpdate\<close> does with the tree's \<^verbatim>\<open>updateOp_\<close>.
\<close>

definition optionalSiftNodeUpdate ::
    "('v \<Rightarrow> 'u \<Rightarrow> 'v) \<Rightarrow> ('v, 'u) node \<Rightarrow> ('v, 'u) node" where
  "optionalSiftNodeUpdate updateOp currNode = siftOptUpdate updateOp currNode"

text \<open>The number of nodes of a subtree, the measure of the descents.\<close>

fun node_count :: "('v, 'u) node \<Rightarrow> nat" where
  "node_count (Leaf v) = 1"
| "node_count (Inner p l r) = 1 + node_count l + node_count r"

lemma node_count_update [simp]: "node_count (update updateOp a n) = node_count n"
  by (induction updateOp a n rule: update.induct) simp_all

lemma node_count_siftOptUpdate [simp]: "node_count (siftOptUpdate updateOp n) = node_count n"
  by (induction updateOp n rule: siftOptUpdate.induct) simp_all

lemma isLeaf_siftOptUpdate [simp]: "isLeaf (siftOptUpdate updateOp n) = isLeaf n"
  by (induction updateOp n rule: siftOptUpdate.induct) simp_all

lemma node_count_children:
  "\<not> isLeaf n \<Longrightarrow> node_count (getLeft n) < node_count n"
  "\<not> isLeaf n \<Longrightarrow> node_count (getRight n) < node_count n"
  by (cases n; simp)+

lemma node_count_sifted_children:
  "\<not> isLeaf n \<Longrightarrow> node_count (getLeft (siftOptUpdate updateOp n)) < node_count n"
  "\<not> isLeaf n \<Longrightarrow> node_count (getRight (siftOptUpdate updateOp n)) < node_count n"
  using node_count_children [of "siftOptUpdate updateOp n"] by simp_all

section \<open>The tree (\<^verbatim>\<open>dst/dynamic_segment_tree.hpp\<close>)\<close>

text \<open>
  The members of \<^verbatim>\<open>dst::DynamicSegmentTree\<close>. The functors \<^verbatim>\<open>updateOp\<close>,
  \<^verbatim>\<open>segGetComb\<close> and \<^verbatim>\<open>segGetInit\<close> held by the variation bases never change
  after construction and are passed to the operations as arguments, after the key
  type. Names lose the underscore they end with (\<^verbatim>\<open>rootNode_\<close>, \<^verbatim>\<open>getImpl_\<close>);
  \<^verbatim>\<open>begin_\<close> and \<^verbatim>\<open>end_\<close> are \<open>tree_begin\<close> and \<open>tree_end\<close>, the ranges of the
  calls are \<open>[b, e)\<close>, and the public operations are \<open>dst_get\<close>, \<open>dst_set\<close>,
  \<open>dst_update\<close> and \<open>dst_rangeGet\<close>.
\<close>

record ('v, 'u) DynamicSegmentTree =
  rootNode :: "('v, 'u) node"
  tree_begin :: int
  tree_end :: int

definition construct :: "int \<Rightarrow> int \<Rightarrow> 'v \<Rightarrow> ('v, 'u) DynamicSegmentTree" where
  "construct b e v = \<lparr>rootNode = Leaf v, tree_begin = b, tree_end = e\<rparr>"

text \<open>
  \<^verbatim>\<open>getImpl_\<close> returns the value of the leaf it reaches; the root is \<^verbatim>\<open>mutable\<close> and
  the descent sifts, so the model also returns the node as the call leaves it. The
  descent goes one node down at each call and ends, whatever the midpoints are.
\<close>

function getImpl ::
    "KeyT \<Rightarrow> ('v \<Rightarrow> 'u \<Rightarrow> 'v) \<Rightarrow> int \<Rightarrow> int \<Rightarrow> int \<Rightarrow> ('v, 'u) node \<Rightarrow> 'v \<times> ('v, 'u) node" where
  "getImpl K updateOp key currBegin currEnd currNode =
     (if isLeaf currNode then (getValue currNode, currNode)
      else
        let n = optionalSiftNodeUpdate updateOp currNode;
            m = mid K currBegin currEnd
        in if key \<ge> m
           then (case getImpl K updateOp key m currEnd (getRight n) of
                   (v, r) \<Rightarrow> (v, Inner (updateValue n) (getLeft n) r))
           else (case getImpl K updateOp key currBegin m (getLeft n) of
                   (v, l) \<Rightarrow> (v, Inner (updateValue n) l (getRight n))))"
  by pat_completeness auto
termination
  by (relation "measure (\<lambda>(K, U, k, cb, ce, n). node_count n)")
     (simp_all add: optionalSiftNodeUpdate_def node_count_sifted_children)

declare getImpl.simps [simp del]

definition dst_get ::
    "KeyT \<Rightarrow> ('v \<Rightarrow> 'u \<Rightarrow> 'v) \<Rightarrow> ('v, 'u) DynamicSegmentTree \<Rightarrow> int
      \<Rightarrow> error + ('v \<times> ('v, 'u) DynamicSegmentTree)" where
  "dst_get K updateOp t key =
     (if key \<ge> tree_end t \<or> key < tree_begin t
      then Inl (out_of_range (''Get operation for '' @ show_key key @ '', which is out of range.''))
      else case getImpl K updateOp key (tree_begin t) (tree_end t) (rootNode t) of
             (v, n) \<Rightarrow> Inr (v, t\<lparr>rootNode := n\<rparr>))"

text \<open>
  \<^verbatim>\<open>setImpl_\<close>, the overload for \<^verbatim>\<open>const ValueT&\<close>. The three assertions are
  checked at every call; a non-leaf is rebuilt from the children the two calls leave.
  Where a sum \<^verbatim>\<open>currBegin + currEnd\<close> overflows the midpoint lies outside the span
  and the descent may never end: the result \<open>None\<close> is a call that does not return.
\<close>

partial_function (option) setImpl ::
    "KeyT \<Rightarrow> ('v \<Rightarrow> 'u \<Rightarrow> 'v) \<Rightarrow> int \<Rightarrow> int \<Rightarrow> int \<Rightarrow> int \<Rightarrow> ('v, 'u) node \<Rightarrow> 'v
      \<Rightarrow> (error + ('v, 'u) node) option" where
  "setImpl K updateOp b e currBegin currEnd currNode toUpdate =
     (if \<not> currBegin < e then Some (Inl assertion_failed)
      else if \<not> currEnd > b then Some (Inl assertion_failed)
      else if \<not> b < e then Some (Inl assertion_failed)
      else if e \<ge> currEnd \<and> b \<le> currBegin then Some (Inr (setValue toUpdate currNode))
      else
        let n = optionalSiftNodeUpdate updateOp
                  (if isLeaf currNode then initChildren currNode else currNode);
            m = mid K currBegin currEnd
        in Option.bind
             (if m > b then setImpl K updateOp b e currBegin m (getLeft n) toUpdate
              else Some (Inr (getLeft n)))
             (\<lambda>left. case left of
                Inl err \<Rightarrow> Some (Inl err)
              | Inr l \<Rightarrow>
                  Option.bind
                    (if m < e then setImpl K updateOp b e m currEnd (getRight n) toUpdate
                     else Some (Inr (getRight n)))
                    (\<lambda>right. case right of
                       Inl err \<Rightarrow> Some (Inl err)
                     | Inr r \<Rightarrow> Some (Inr (Inner (updateValue n) l r)))))"

declare setImpl.simps [code]

text \<open>
  \<^verbatim>\<open>setImpl_\<close>, the overload for \<^verbatim>\<open>ValueT&&\<close>: the value goes to the only side
  that is visited, or is copied to the left side (a call of the first overload, since
  the named reference is an lvalue) and moved to the right one. Copies and moves of a
  value are the value.
\<close>

partial_function (option) setImpl_move ::
    "KeyT \<Rightarrow> ('v \<Rightarrow> 'u \<Rightarrow> 'v) \<Rightarrow> int \<Rightarrow> int \<Rightarrow> int \<Rightarrow> int \<Rightarrow> ('v, 'u) node \<Rightarrow> 'v
      \<Rightarrow> (error + ('v, 'u) node) option" where
  "setImpl_move K updateOp b e currBegin currEnd currNode toUpdate =
     (if \<not> currBegin < e then Some (Inl assertion_failed)
      else if \<not> currEnd > b then Some (Inl assertion_failed)
      else if \<not> b < e then Some (Inl assertion_failed)
      else if e \<ge> currEnd \<and> b \<le> currBegin then Some (Inr (setValue toUpdate currNode))
      else
        let n = optionalSiftNodeUpdate updateOp
                  (if isLeaf currNode then initChildren currNode else currNode);
            m = mid K currBegin currEnd
        in if m \<ge> e
           then Option.bind (setImpl_move K updateOp b e currBegin m (getLeft n) toUpdate)
                  (\<lambda>left. case left of
                     Inl err \<Rightarrow> Some (Inl err)
                   | Inr l \<Rightarrow> Some (Inr (Inner (updateValue n) l (getRight n))))
           else if m \<le> b
           then Option.bind (setImpl_move K updateOp b e m currEnd (getRight n) toUpdate)
                  (\<lambda>right. case right of
                     Inl err \<Rightarrow> Some (Inl err)
                   | Inr r \<Rightarrow> Some (Inr (Inner (updateValue n) (getLeft n) r)))
           else Option.bind (setImpl K updateOp b e currBegin m (getLeft n) toUpdate)
                  (\<lambda>left. case left of
                     Inl err \<Rightarrow> Some (Inl err)
                   | Inr l \<Rightarrow>
                       Option.bind
                         (setImpl_move K updateOp b e m currEnd (getRight n) toUpdate)
                         (\<lambda>right. case right of
                            Inl err \<Rightarrow> Some (Inl err)
                          | Inr r \<Rightarrow> Some (Inr (Inner (updateValue n) l r)))))"

declare setImpl_move.simps [code]

text \<open>
  Modelled from the spec: \<^verbatim>\<open>updateImpl_\<close> is defined in
  \<^verbatim>\<open>dst/impl/dynamic_segment_tree_update_variation_base.hpp\<close>, which is not among the
  sources. Section 4.3: "Identical shape to set, except that at step 2 the action is
  apply_update(U[, arg]) instead of set_value", with the precondition of set,
  "cb < e, ce > b, b < e (there is real overlap)"; section 4.1: "If b >= e, no-op".
  The tree's \<^verbatim>\<open>update\<close> calls \<^verbatim>\<open>updateImpl_\<close> with no test of its own, so the no-op
  is placed here.
\<close>

partial_function (option) updateImpl ::
    "KeyT \<Rightarrow> ('v \<Rightarrow> 'u \<Rightarrow> 'v) \<Rightarrow> int \<Rightarrow> int \<Rightarrow> int \<Rightarrow> int \<Rightarrow> ('v, 'u) node \<Rightarrow> 'u
      \<Rightarrow> (error + ('v, 'u) node) option" where
  "updateImpl K updateOp b e currBegin currEnd currNode toUpdate =
     (if b \<ge> e then Some (Inr currNode)
      else if \<not> currBegin < e then Some (Inl assertion_failed)
      else if \<not> currEnd > b then Some (Inl assertion_failed)
      else if e \<ge> currEnd \<and> b \<le> currBegin
      then Some (Inr (update updateOp toUpdate currNode))
      else
        let n = optionalSiftNodeUpdate updateOp
                  (if isLeaf currNode then initChildren currNode else currNode);
            m = mid K currBegin currEnd
        in Option.bind
             (if m > b then updateImpl K updateOp b e currBegin m (getLeft n) toUpdate
              else Some (Inr (getLeft n)))
             (\<lambda>left. case left of
                Inl err \<Rightarrow> Some (Inl err)
              | Inr l \<Rightarrow>
                  Option.bind
                    (if m < e then updateImpl K updateOp b e m currEnd (getRight n) toUpdate
                     else Some (Inr (getRight n)))
                    (\<lambda>right. case right of
                       Inl err \<Rightarrow> Some (Inl err)
                     | Inr r \<Rightarrow> Some (Inr (Inner (updateValue n) l r)))))"

declare updateImpl.simps [code]

text \<open>
  The public \<^verbatim>\<open>set\<close> (for \<^verbatim>\<open>const ValueT&\<close> and for \<^verbatim>\<open>ValueT&&\<close>) and
  \<^verbatim>\<open>update\<close> of \<^verbatim>\<open>dst::DynamicSegmentTree\<close>.
\<close>

definition dst_set ::
    "KeyT \<Rightarrow> ('v \<Rightarrow> 'u \<Rightarrow> 'v) \<Rightarrow> ('v, 'u) DynamicSegmentTree \<Rightarrow> int \<Rightarrow> int \<Rightarrow> 'v
      \<Rightarrow> (error + ('v, 'u) DynamicSegmentTree) option" where
  "dst_set K updateOp t b e toSet =
     (if b < e
      then Option.bind (setImpl K updateOp b e (tree_begin t) (tree_end t) (rootNode t) toSet)
             (\<lambda>res. case res of
                Inl err \<Rightarrow> Some (Inl err)
              | Inr n \<Rightarrow> Some (Inr (t\<lparr>rootNode := n\<rparr>)))
      else Some (Inr t))"

definition dst_set_move ::
    "KeyT \<Rightarrow> ('v \<Rightarrow> 'u \<Rightarrow> 'v) \<Rightarrow> ('v, 'u) DynamicSegmentTree \<Rightarrow> int \<Rightarrow> int \<Rightarrow> 'v
      \<Rightarrow> (error + ('v, 'u) DynamicSegmentTree) option" where
  "dst_set_move K updateOp t b e toSet =
     (if b < e
      then Option.bind
             (setImpl_move K updateOp b e (tree_begin t) (tree_end t) (rootNode t) toSet)
             (\<lambda>res. case res of
                Inl err \<Rightarrow> Some (Inl err)
              | Inr n \<Rightarrow> Some (Inr (t\<lparr>rootNode := n\<rparr>)))
      else Some (Inr t))"

definition dst_update ::
    "KeyT \<Rightarrow> ('v \<Rightarrow> 'u \<Rightarrow> 'v) \<Rightarrow> ('v, 'u) DynamicSegmentTree \<Rightarrow> int \<Rightarrow> int \<Rightarrow> 'u
      \<Rightarrow> (error + ('v, 'u) DynamicSegmentTree) option" where
  "dst_update K updateOp t b e toUpdate =
     Option.bind (updateImpl K updateOp b e (tree_begin t) (tree_end t) (rootNode t) toUpdate)
       (\<lambda>res. case res of
          Inl err \<Rightarrow> Some (Inl err)
        | Inr n \<Rightarrow> Some (Inr (t\<lparr>rootNode := n\<rparr>)))"

section \<open>What a node holds for a key\<close>

text \<open>
  The value a subtree over \<open>[cb, ce)\<close> holds for the key \<open>k\<close>: the value of the leaf
  that the descent of \<^verbatim>\<open>getImpl_\<close> reaches, with the pending updates met on the way
  applied innermost first. It is the value that \<^verbatim>\<open>getImpl_\<close> returns (lemma
  \<open>getImpl_value\<close>).
\<close>

fun value_at ::
    "KeyT \<Rightarrow> ('v \<Rightarrow> 'u \<Rightarrow> 'v) \<Rightarrow> int \<Rightarrow> int \<Rightarrow> ('v, 'u) node \<Rightarrow> int \<Rightarrow> 'v" where
  "value_at K updateOp cb ce (Leaf v) k = v"
| "value_at K updateOp cb ce (Inner p l r) k =
     (let x = (if k \<ge> mid K cb ce then value_at K updateOp (mid K cb ce) ce r k
               else value_at K updateOp cb (mid K cb ce) l k)
      in case p of None \<Rightarrow> x | Some a \<Rightarrow> updateOp x a)"

text \<open>The allocated nodes of a subtree: its shape, without values and pending updates.\<close>

datatype topology = LeafNode | InnerNode topology topology

fun topology_of :: "('v, 'u) node \<Rightarrow> topology" where
  "topology_of (Leaf v) = LeafNode"
| "topology_of (Inner p l r) = InnerNode (topology_of l) (topology_of r)"

text \<open>
  The node as the descents of \<^verbatim>\<open>setImpl_\<close> and \<^verbatim>\<open>rangeGetImpl_\<close> see it after
  \<^verbatim>\<open>if (currNode->isLeaf()) currNode->initChildren();\<close> and the sift. Used in the
  proofs only.
\<close>

definition opened :: "('v \<Rightarrow> 'u \<Rightarrow> 'v) \<Rightarrow> ('v, 'u) node \<Rightarrow> ('v, 'u) node" where
  "opened U n = optionalSiftNodeUpdate U (if isLeaf n then initChildren n else n)"

section \<open>Range queries (\<^verbatim>\<open>dynamic_segment_tree_range_get_variation_base.hpp\<close>)\<close>

text \<open>
  The two forms of \<^verbatim>\<open>SegGetComb\<close> and of \<^verbatim>\<open>SegGetInit\<close> for which \<^verbatim>\<open>rangeGet\<close>
  exists, and the \<^verbatim>\<open>combineGet_\<close> and \<^verbatim>\<open>initGet_\<close> of their variation bases.
\<close>

datatype 'g SegGetComb =
    ValueGetCombiner "'g \<Rightarrow> 'g \<Rightarrow> 'g"
  | ValueAndBordersGetCombiner "'g \<Rightarrow> 'g \<Rightarrow> int \<Rightarrow> int \<Rightarrow> int \<Rightarrow> 'g"

datatype ('v, 'g) SegGetInit =
    ValueGetInitializer "'v \<Rightarrow> 'g"
  | ValueAndBordersGetInitializer "'v \<Rightarrow> int \<Rightarrow> int \<Rightarrow> 'g"

fun combineGet :: "'g SegGetComb \<Rightarrow> 'g \<Rightarrow> 'g \<Rightarrow> int \<Rightarrow> int \<Rightarrow> int \<Rightarrow> 'g" where
  "combineGet (ValueGetCombiner segCombiner) leftValue rightValue leftBegin separation rightEnd =
     segCombiner leftValue rightValue"
| "combineGet (ValueAndBordersGetCombiner segCombiner) leftValue rightValue leftBegin separation rightEnd =
     segCombiner leftValue rightValue leftBegin separation rightEnd"

fun initGet :: "('v, 'g) SegGetInit \<Rightarrow> int \<Rightarrow> int \<Rightarrow> 'v \<Rightarrow> 'g" where
  "initGet (ValueGetInitializer segInitializer) b e val = segInitializer val"
| "initGet (ValueAndBordersGetInitializer segInitializer) b e val = segInitializer val b e"

text \<open>
  \<^verbatim>\<open>rangeGetImpl_\<close>. Its own test, \<^verbatim>\<open>begin > currEnd || currBegin > end\<close>, does not
  bound the recursion (a leaf of one key with \<open>begin = end\<close> is split again and again),
  and neither does a midpoint outside its span: \<open>None\<close> is a call that does not return.
  \<^verbatim>\<open>assert(false)\<close> is \<open>assertion_failed\<close>. The right part is computed before the left
  one, as in the source; the node is returned as the call leaves it.
\<close>

partial_function (option) rangeGetImpl ::
    "KeyT \<Rightarrow> 'g SegGetComb \<Rightarrow> ('v, 'g) SegGetInit \<Rightarrow> ('v \<Rightarrow> 'u \<Rightarrow> 'v)
      \<Rightarrow> int \<Rightarrow> int \<Rightarrow> int \<Rightarrow> int \<Rightarrow> ('v, 'u) node
      \<Rightarrow> (error + 'g \<times> ('v, 'u) node) option" where
  "rangeGetImpl K segGetComb segGetInit updateOp b e currBegin currEnd currNode =
     (if b > currEnd \<or> currBegin > e then Some (Inl assertion_failed)
      else if e \<ge> currEnd \<and> b \<le> currBegin \<and> isLeaf currNode
      then Some (Inr (initGet segGetInit currBegin currEnd (getValue currNode), currNode))
      else
        let n = optionalSiftNodeUpdate updateOp
                  (if isLeaf currNode then initChildren currNode else currNode);
            m = mid K currBegin currEnd
        in if b \<ge> m
           then Option.bind
                  (rangeGetImpl K segGetComb segGetInit updateOp b e m currEnd (getRight n))
                  (\<lambda>right. case right of
                     Inl err \<Rightarrow> Some (Inl err)
                   | Inr (x, r) \<Rightarrow> Some (Inr (x, Inner (updateValue n) (getLeft n) r)))
           else if e \<le> m
           then Option.bind
                  (rangeGetImpl K segGetComb segGetInit updateOp b e currBegin m (getLeft n))
                  (\<lambda>left. case left of
                     Inl err \<Rightarrow> Some (Inl err)
                   | Inr (x, l) \<Rightarrow> Some (Inr (x, Inner (updateValue n) l (getRight n))))
           else Option.bind
                  (rangeGetImpl K segGetComb segGetInit updateOp b e m currEnd (getRight n))
                  (\<lambda>right. case right of
                     Inl err \<Rightarrow> Some (Inl err)
                   | Inr (rVal, r) \<Rightarrow>
                       Option.bind
                         (rangeGetImpl K segGetComb segGetInit updateOp b e currBegin m
                            (getLeft n))
                         (\<lambda>left. case left of
                            Inl err \<Rightarrow> Some (Inl err)
                          | Inr (lVal, l) \<Rightarrow>
                              Some (Inr (combineGet segGetComb lVal rVal
                                           (max currBegin b) m (min currEnd e),
                                         Inner (updateValue n) l r)))))"

declare rangeGetImpl.simps [code]

definition dst_rangeGet ::
    "KeyT \<Rightarrow> 'g SegGetComb \<Rightarrow> ('v, 'g) SegGetInit \<Rightarrow> ('v \<Rightarrow> 'u \<Rightarrow> 'v)
      \<Rightarrow> ('v, 'u) DynamicSegmentTree \<Rightarrow> int \<Rightarrow> int
      \<Rightarrow> (error + 'g \<times> ('v, 'u) DynamicSegmentTree) option" where
  "dst_rangeGet K segGetComb segGetInit updateOp t b e =
     Option.bind
       (rangeGetImpl K segGetComb segGetInit updateOp b e
          (tree_begin t) (tree_end t) (rootNode t))
       (\<lambda>res. case res of
          Inl err \<Rightarrow> Some (Inl err)
        | Inr (x, n) \<Rightarrow> Some (Inr (x, t\<lparr>rootNode := n\<rparr>)))"

section \<open>The naive reference\<close>

text \<open>
  The reference stores one value per key. \<open>set\<close> assigns and \<open>update\<close> applies the
  update operator at each key of \<open>[b, e)\<close>; the two overloads of \<^verbatim>\<open>set\<close> are two
  calls with one meaning.
\<close>

datatype ('v, 'u) call =
    SetCall int int 'v
  | SetMoveCall int int 'v
  | UpdateCall int int 'u
  | GetCall int
  | RangeGetCall int int

fun ref_perform :: "('v \<Rightarrow> 'u \<Rightarrow> 'v) \<Rightarrow> (int \<Rightarrow> 'v) \<Rightarrow> ('v, 'u) call \<Rightarrow> (int \<Rightarrow> 'v)" where
  "ref_perform U f (SetCall b e v) = (\<lambda>k. if b \<le> k \<and> k < e then v else f k)"
| "ref_perform U f (SetMoveCall b e v) = (\<lambda>k. if b \<le> k \<and> k < e then v else f k)"
| "ref_perform U f (UpdateCall b e a) = (\<lambda>k. if b \<le> k \<and> k < e then U (f k) a else f k)"
| "ref_perform U f (GetCall k) = f"
| "ref_perform U f (RangeGetCall b e) = f"

definition ref_run :: "('v \<Rightarrow> 'u \<Rightarrow> 'v) \<Rightarrow> 'v \<Rightarrow> ('v, 'u) call list \<Rightarrow> (int \<Rightarrow> 'v)" where
  "ref_run U v0 calls = foldl (ref_perform U) (\<lambda>k. v0) calls"

text \<open>
  The reference of a range query is written from sections 3 and 4.1 and not from
  \<^verbatim>\<open>combineGet_\<close> and \<^verbatim>\<open>initGet_\<close>: the initializer \<open>I\<close> "lifts a single value into
  an aggregate" and the combiner \<open>C\<close> combines the aggregates of two adjacent
  segments, both "optionally with borders". The query folds, from left to right with
  \<open>C\<close>, the values of the keys of \<open>[b, e)\<close>, each lifted by \<open>I\<close> as the segment of
  that one key.
\<close>

fun ref_init :: "('v, 'g) SegGetInit \<Rightarrow> int \<Rightarrow> int \<Rightarrow> 'v \<Rightarrow> 'g" where
  "ref_init (ValueGetInitializer I) lo hi v = I v"
| "ref_init (ValueAndBordersGetInitializer I) lo hi v = I v lo hi"

fun ref_combine :: "'g SegGetComb \<Rightarrow> 'g \<Rightarrow> 'g \<Rightarrow> int \<Rightarrow> int \<Rightarrow> int \<Rightarrow> 'g" where
  "ref_combine (ValueGetCombiner C) x y lo m hi = C x y"
| "ref_combine (ValueAndBordersGetCombiner C) x y lo m hi = C x y lo m hi"

definition ref_rangeGet ::
    "'g SegGetComb \<Rightarrow> ('v, 'g) SegGetInit \<Rightarrow> (int \<Rightarrow> 'v) \<Rightarrow> int \<Rightarrow> int \<Rightarrow> 'g" where
  "ref_rangeGet C I f b e =
     foldl (\<lambda>acc k. ref_combine C acc (ref_init I k (k + 1) (f k)) b k (k + 1))
       (ref_init I b (b + 1) (f b)) [b + 1..e - 1]"

text \<open>
  The requirements of section 3, on the values that the keys of \<open>[b, e)\<close> hold: the
  combiner is associative on the aggregates of adjacent segments of \<open>[b, e)\<close>, and
  "the aggregate over a uniformly filled span of value \<open>v\<close>" is what the initializer
  gives for \<open>v\<close> and that span.
\<close>

definition associative_on ::
    "'g SegGetComb \<Rightarrow> ('v, 'g) SegGetInit \<Rightarrow> (int \<Rightarrow> 'v) \<Rightarrow> int \<Rightarrow> int \<Rightarrow> bool" where
  "associative_on C I f b e \<longleftrightarrow>
     (\<forall>lo m1 m2 hi. b \<le> lo \<and> lo < m1 \<and> m1 < m2 \<and> m2 < hi \<and> hi \<le> e \<longrightarrow>
        ref_combine C
          (ref_combine C (ref_rangeGet C I f lo m1) (ref_rangeGet C I f m1 m2) lo m1 m2)
          (ref_rangeGet C I f m2 hi) lo m2 hi
        = ref_combine C (ref_rangeGet C I f lo m1)
            (ref_combine C (ref_rangeGet C I f m1 m2) (ref_rangeGet C I f m2 hi) m1 m2 hi)
            lo m1 hi)"

definition consistent_on ::
    "'g SegGetComb \<Rightarrow> ('v, 'g) SegGetInit \<Rightarrow> (int \<Rightarrow> 'v) \<Rightarrow> int \<Rightarrow> int \<Rightarrow> bool" where
  "consistent_on C I f b e \<longleftrightarrow>
     (\<forall>lo hi v. b \<le> lo \<and> lo < hi \<and> hi \<le> e \<and> (\<forall>k. lo \<le> k \<and> k < hi \<longrightarrow> f k = v) \<longrightarrow>
        ref_init I lo hi v = ref_rangeGet C I f lo hi)"



section \<open>Sequences of calls\<close>

text \<open>
  A call is in contract for a tree over \<open>[begin, end)\<close> when: a \<open>set\<close> or \<open>update\<close>
  has an empty range (\<open>b \<ge> e\<close>) or a range that meets the key range, which is what
  the assertions of \<^verbatim>\<open>setImpl_\<close> ask of its caller and the public \<^verbatim>\<open>set\<close> does not
  test; a \<open>get\<close> has its key in the key range; a \<open>rangeGet\<close> has a non-empty range
  inside the key range.
\<close>

fun in_contract :: "int \<Rightarrow> int \<Rightarrow> ('v, 'u) call \<Rightarrow> bool" where
  "in_contract bg en (SetCall b e v) = (e \<le> b \<or> (bg < e \<and> b < en))"
| "in_contract bg en (SetMoveCall b e v) = (e \<le> b \<or> (bg < e \<and> b < en))"
| "in_contract bg en (UpdateCall b e a) = (e \<le> b \<or> (bg < e \<and> b < en))"
| "in_contract bg en (GetCall k) = (bg \<le> k \<and> k < en)"
| "in_contract bg en (RangeGetCall b e) = (bg \<le> b \<and> b < e \<and> e \<le> en)"

text \<open>
  The tree after a call, and after a sequence of calls; \<open>None\<close> when a call does not
  return, an error when a call fails.
\<close>

fun perform ::
    "KeyT \<Rightarrow> 'g SegGetComb \<Rightarrow> ('v, 'g) SegGetInit \<Rightarrow> ('v \<Rightarrow> 'u \<Rightarrow> 'v)
      \<Rightarrow> ('v, 'u) DynamicSegmentTree \<Rightarrow> ('v, 'u) call
      \<Rightarrow> (error + ('v, 'u) DynamicSegmentTree) option" where
  "perform K C I U t (SetCall b e v) = dst_set K U t b e v"
| "perform K C I U t (SetMoveCall b e v) = dst_set_move K U t b e v"
| "perform K C I U t (UpdateCall b e a) = dst_update K U t b e a"
| "perform K C I U t (GetCall k) =
     Some (case dst_get K U t k of Inl err \<Rightarrow> Inl err | Inr (v, t') \<Rightarrow> Inr t')"
| "perform K C I U t (RangeGetCall b e) =
     Option.bind (dst_rangeGet K C I U t b e)
       (\<lambda>res. case res of Inl err \<Rightarrow> Some (Inl err) | Inr (x, t') \<Rightarrow> Some (Inr t'))"

fun run ::
    "KeyT \<Rightarrow> 'g SegGetComb \<Rightarrow> ('v, 'g) SegGetInit \<Rightarrow> ('v \<Rightarrow> 'u \<Rightarrow> 'v)
      \<Rightarrow> ('v, 'u) DynamicSegmentTree \<Rightarrow> ('v, 'u) call list
      \<Rightarrow> (error + ('v, 'u) DynamicSegmentTree) option" where
  "run K C I U t [] = Some (Inr t)"
| "run K C I U t (c # cs) =
     Option.bind (perform K C I U t c)
       (\<lambda>res. case res of Inl err \<Rightarrow> Some (Inl err) | Inr t' \<Rightarrow> run K C I U t' cs)"

text \<open>
  What \<^verbatim>\<open>get(k)\<close> returns after a sequence of calls on a new tree: \<open>None\<close> when a
  call does not return, an error when a call fails.
\<close>

definition get_after ::
    "KeyT \<Rightarrow> 'g SegGetComb \<Rightarrow> ('v, 'g) SegGetInit \<Rightarrow> ('v \<Rightarrow> 'u \<Rightarrow> 'v)
      \<Rightarrow> int \<Rightarrow> int \<Rightarrow> 'v \<Rightarrow> ('v, 'u) call list \<Rightarrow> int \<Rightarrow> (error + 'v) option" where
  "get_after K C I U bg en v0 calls k =
     Option.bind (run K C I U (construct bg en v0) calls)
       (\<lambda>res. case res of
          Inl err \<Rightarrow> Some (Inl err)
        | Inr t \<Rightarrow> Some (case dst_get K U t k of Inl err \<Rightarrow> Inl err | Inr (v, t') \<Rightarrow> Inr v))"

text \<open>
  Every non-leaf spans at least two keys. Where no sum overflows, the trees that the
  calls build have this property.
\<close>

fun well_formed :: "KeyT \<Rightarrow> int \<Rightarrow> int \<Rightarrow> ('v, 'u) node \<Rightarrow> bool" where
  "well_formed K cb ce (Leaf v) = True"
| "well_formed K cb ce (Inner p l r) =
     (cb + 2 \<le> ce \<and> well_formed K cb (mid K cb ce) l \<and> well_formed K (mid K cb ce) ce r)"

text \<open>
  A tree over \<open>[bg, en)\<close> represents the reference state \<open>f\<close> when its nodes are
  well formed and every key of \<open>[bg, en)\<close> holds the value \<open>f\<close> gives it.
\<close>

definition represents ::
    "KeyT \<Rightarrow> ('v \<Rightarrow> 'u \<Rightarrow> 'v) \<Rightarrow> ('v, 'u) DynamicSegmentTree \<Rightarrow> int \<Rightarrow> int \<Rightarrow> (int \<Rightarrow> 'v)
      \<Rightarrow> bool" where
  "represents K U t bg en f \<longleftrightarrow>
     tree_begin t = bg \<and> tree_end t = en \<and> well_formed K bg en (rootNode t) \<and>
     (\<forall>k. bg \<le> k \<and> k < en \<longrightarrow> value_at K U bg en (rootNode t) k = f k)"


section \<open>The first header (\<^verbatim>\<open>include/dynamic_segment_tree.hpp\<close>)\<close>

text \<open>
  Modelled from the spec: the \<^verbatim>\<open>node.hpp\<close> that the first header includes, with its
  \<^verbatim>\<open>Node<ValueT, UpdateOp, Allocator>\<close>, is not among the sources. Its
  \<^verbatim>\<open>setValue\<close>, \<^verbatim>\<open>update\<close>, \<^verbatim>\<open>isLeaf\<close>, \<^verbatim>\<open>getValue\<close>,
  \<^verbatim>\<open>getLeft\<close> and \<^verbatim>\<open>getRight\<close> are taken to be the \<open>set_value\<close>,
  \<open>apply_update\<close>, \<open>is_leaf\<close>, \<open>value\<close>, \<open>left\<close> and \<open>right\<close> of section 4.2, as
  modelled above. The recursions of the header take \<^verbatim>\<open>getLeft()\<close> and
  \<^verbatim>\<open>getRight()\<close> right after \<^verbatim>\<open>siftDown()\<close> and never call an \<open>init_children\<close>
  themselves, so \<^verbatim>\<open>siftDown\<close> is taken to be \<open>init_children\<close> ("must be called on a
  leaf; allocates two children, copies the current value into the left child, moves
  (or copies) it into the right") on a leaf, followed by \<open>sift\<close> ("If a pending update
  exists, apply it to both children (via apply_update) and clear the slot").
\<close>

definition siftDown :: "('v \<Rightarrow> 'u \<Rightarrow> 'v) \<Rightarrow> ('v, 'u) node \<Rightarrow> ('v, 'u) node" where
  "siftDown updateOp n = siftOptUpdate updateOp (if isLeaf n then initChildren n else n)"

text \<open>
  \<^verbatim>\<open>_setImpl\<close> of the first header, with its guards as they are written. The
  functions of this header are named \<open>legacy_\<close> here. A call has no assertion; \<open>None\<close>
  is a call that does not return. Past the first test \<^verbatim>\<open>currBegin < end\<close> and
  \<^verbatim>\<open>begin < currEnd\<close>, so that \<^verbatim>\<open>currBegin + 1\<close> and \<^verbatim>\<open>begin + 1\<close> are keys
  and do not overflow.
\<close>

partial_function (option) legacy_setImpl ::
    "KeyT \<Rightarrow> ('v \<Rightarrow> 'u \<Rightarrow> 'v) \<Rightarrow> int \<Rightarrow> int \<Rightarrow> int \<Rightarrow> int \<Rightarrow> ('v, 'u) node \<Rightarrow> 'v
      \<Rightarrow> ('v, 'u) node option" where
  "legacy_setImpl K updateOp b e currBegin currEnd currNode toUpdate =
     (if b \<ge> currEnd \<or> currBegin \<ge> e then Some currNode
      else if e \<ge> currEnd \<and> b \<le> currBegin then Some (setValue toUpdate currNode)
      else
        let m = mid K currBegin currEnd;
            n = siftDown updateOp currNode
        in Option.bind
             (if m \<ge> currBegin + 1
              then legacy_setImpl K updateOp b e currBegin m (getLeft n) toUpdate
              else Some (getLeft n))
             (\<lambda>l. Option.bind
                     (if currEnd \<ge> b + 1
                      then legacy_setImpl K updateOp b e m currEnd (getRight n) toUpdate
                      else Some (getRight n))
                     (\<lambda>r. Some (Inner (updateValue n) l r))))"

declare legacy_setImpl.simps [code]

text \<open>
  The recursion of \<^verbatim>\<open>_setImpl\<close> with the two guards of section 9: "if (mid < end)
  recurse right; if (mid > begin) recurse left". Nothing else is changed.
\<close>

partial_function (option) legacy_setImpl_corrected ::
    "KeyT \<Rightarrow> ('v \<Rightarrow> 'u \<Rightarrow> 'v) \<Rightarrow> int \<Rightarrow> int \<Rightarrow> int \<Rightarrow> int \<Rightarrow> ('v, 'u) node \<Rightarrow> 'v
      \<Rightarrow> ('v, 'u) node option" where
  "legacy_setImpl_corrected K updateOp b e currBegin currEnd currNode toUpdate =
     (if b \<ge> currEnd \<or> currBegin \<ge> e then Some currNode
      else if e \<ge> currEnd \<and> b \<le> currBegin then Some (setValue toUpdate currNode)
      else
        let m = mid K currBegin currEnd;
            n = siftDown updateOp currNode
        in Option.bind
             (if m > b
              then legacy_setImpl_corrected K updateOp b e currBegin m (getLeft n) toUpdate
              else Some (getLeft n))
             (\<lambda>l. Option.bind
                     (if m < e
                      then legacy_setImpl_corrected K updateOp b e m currEnd (getRight n) toUpdate
                      else Some (getRight n))
                     (\<lambda>r. Some (Inner (updateValue n) l r))))"

declare legacy_setImpl_corrected.simps [code]

text \<open>
  \<^verbatim>\<open>_updateImpl\<close> of the first header. The midpoint is half of a key, so that
  \<^verbatim>\<open>m + 1\<close> does not overflow.
\<close>

partial_function (option) legacy_updateImpl ::
    "KeyT \<Rightarrow> ('v \<Rightarrow> 'u \<Rightarrow> 'v) \<Rightarrow> int \<Rightarrow> int \<Rightarrow> int \<Rightarrow> int \<Rightarrow> ('v, 'u) node \<Rightarrow> 'u
      \<Rightarrow> ('v, 'u) node option" where
  "legacy_updateImpl K updateOp b e currBegin currEnd currNode toUpdate =
     (if b \<ge> currEnd \<or> currBegin \<ge> e then Some currNode
      else if e \<ge> currEnd \<and> b \<le> currBegin then Some (update updateOp toUpdate currNode)
      else
        let m = mid K currBegin currEnd;
            n = siftDown updateOp currNode
        in Option.bind
             (if m \<ge> currBegin + 1
              then legacy_updateImpl K updateOp b e currBegin m (getLeft n) toUpdate
              else Some (getLeft n))
             (\<lambda>l. Option.bind
                     (if currEnd \<ge> m + 1
                      then legacy_updateImpl K updateOp b e m currEnd (getRight n) toUpdate
                      else Some (getRight n))
                     (\<lambda>r. Some (Inner (updateValue n) l r))))"

declare legacy_updateImpl.simps [code]

lemma node_count_siftDown_children:
  "\<not> isLeaf n \<Longrightarrow> node_count (getLeft (siftDown updateOp n)) < node_count n"
  "\<not> isLeaf n \<Longrightarrow> node_count (getRight (siftDown updateOp n)) < node_count n"
  by (simp_all add: siftDown_def node_count_sifted_children)

text \<open>
  \<^verbatim>\<open>_getImpl\<close> and the public \<^verbatim>\<open>get\<close>, \<^verbatim>\<open>set\<close> and \<^verbatim>\<open>update\<close> of the first
  header. \<^verbatim>\<open>get\<close> returns a \<^verbatim>\<open>ValueT\<close> by value; outside the key range it is the
  value-initialised \<^verbatim>\<open>ValueT{}\<close>, which is \<open>0\<close> for the arithmetic types.
  \<^verbatim>\<open>_getImpl\<close> goes from a node to one of its children until it is at a leaf, so
  it returns whatever the midpoints are.
\<close>

function legacy_getImpl ::
    "KeyT \<Rightarrow> ('v \<Rightarrow> 'u \<Rightarrow> 'v) \<Rightarrow> int \<Rightarrow> int \<Rightarrow> int \<Rightarrow> ('v, 'u) node \<Rightarrow> 'v \<times> ('v, 'u) node" where
  "legacy_getImpl K updateOp key currBegin currEnd currNode =
     (if isLeaf currNode then (getValue currNode, currNode)
      else
        let n = siftDown updateOp currNode;
            m = mid K currBegin currEnd
        in if key \<ge> m
           then (case legacy_getImpl K updateOp key m currEnd (getRight n) of
                   (v, r) \<Rightarrow> (v, Inner (updateValue n) (getLeft n) r))
           else (case legacy_getImpl K updateOp key currBegin m (getLeft n) of
                   (v, l) \<Rightarrow> (v, Inner (updateValue n) l (getRight n))))"
  by pat_completeness auto
termination
  by (relation "measure (\<lambda>(K, U, k, cb, ce, n). node_count n)")
     (simp_all add: node_count_siftDown_children)

declare legacy_getImpl.simps [simp del]

definition legacy_get ::
    "KeyT \<Rightarrow> ('v \<Rightarrow> 'u \<Rightarrow> 'v) \<Rightarrow> ('v, 'u) DynamicSegmentTree \<Rightarrow> int
      \<Rightarrow> ('v::zero) \<times> ('v, 'u) DynamicSegmentTree" where
  "legacy_get K updateOp t key =
     (if key \<ge> tree_end t \<or> key < tree_begin t then (0, t)
      else case legacy_getImpl K updateOp key (tree_begin t) (tree_end t) (rootNode t) of
             (v, n) \<Rightarrow> (v, t\<lparr>rootNode := n\<rparr>))"

definition legacy_set ::
    "KeyT \<Rightarrow> ('v \<Rightarrow> 'u \<Rightarrow> 'v) \<Rightarrow> ('v, 'u) DynamicSegmentTree \<Rightarrow> int \<Rightarrow> int \<Rightarrow> 'v
      \<Rightarrow> ('v, 'u) DynamicSegmentTree option" where
  "legacy_set K updateOp t b e toUpdate =
     map_option (\<lambda>n. t\<lparr>rootNode := n\<rparr>)
       (legacy_setImpl K updateOp b e (tree_begin t) (tree_end t) (rootNode t) toUpdate)"

text \<open>\<^verbatim>\<open>set\<close> over the recursion with the guards of section 9.\<close>

definition legacy_set_corrected ::
    "KeyT \<Rightarrow> ('v \<Rightarrow> 'u \<Rightarrow> 'v) \<Rightarrow> ('v, 'u) DynamicSegmentTree \<Rightarrow> int \<Rightarrow> int \<Rightarrow> 'v
      \<Rightarrow> ('v, 'u) DynamicSegmentTree option" where
  "legacy_set_corrected K updateOp t b e toUpdate =
     map_option (\<lambda>n. t\<lparr>rootNode := n\<rparr>)
       (legacy_setImpl_corrected K updateOp b e (tree_begin t) (tree_end t) (rootNode t)
          toUpdate)"

definition legacy_update ::
    "KeyT \<Rightarrow> ('v \<Rightarrow> 'u \<Rightarrow> 'v) \<Rightarrow> ('v, 'u) DynamicSegmentTree \<Rightarrow> int \<Rightarrow> int \<Rightarrow> 'u
      \<Rightarrow> ('v, 'u) DynamicSegmentTree option" where
  "legacy_update K updateOp t b e toUpdate =
     map_option (\<lambda>n. t\<lparr>rootNode := n\<rparr>)
       (legacy_updateImpl K updateOp b e (tree_begin t) (tree_end t) (rootNode t) toUpdate)"

text \<open>
  The two forms of \<^verbatim>\<open>SegCombiner\<close> and of \<^verbatim>\<open>SegInitializer\<close> that the concepts
  \<^verbatim>\<open>SegmentCombiner\<close> and \<^verbatim>\<open>SegmentInitializer\<close> of the first header admit, and
  the calls that \<^verbatim>\<open>_rangeGetImpl\<close> makes of them under \<^verbatim>\<open>if constexpr\<close>: a combiner
  is called with the two lengths when it accepts them, an initializer with the length
  when it does not accept the value alone.
\<close>

datatype 'v SegCombiner =
    ValueSegmentCombiner "'v \<Rightarrow> 'v \<Rightarrow> 'v"
  | ValueAndLengthCombiner "'v \<Rightarrow> 'v \<Rightarrow> int \<Rightarrow> int \<Rightarrow> 'v"

datatype 'v SegInitializer =
    ValueSegmentInitializer "'v \<Rightarrow> 'v"
  | ValueAndLengthSegmentInitializer "'v \<Rightarrow> int \<Rightarrow> 'v"

fun legacy_segCombiner :: "'v SegCombiner \<Rightarrow> 'v \<Rightarrow> 'v \<Rightarrow> int \<Rightarrow> int \<Rightarrow> 'v" where
  "legacy_segCombiner (ValueAndLengthCombiner segCombiner) lVal rVal leftLength rightLength =
     segCombiner lVal rVal leftLength rightLength"
| "legacy_segCombiner (ValueSegmentCombiner segCombiner) lVal rVal leftLength rightLength =
     segCombiner lVal rVal"

fun legacy_segInitializer :: "'v SegInitializer \<Rightarrow> 'v \<Rightarrow> int \<Rightarrow> 'v" where
  "legacy_segInitializer (ValueSegmentInitializer segInitializer) v len = segInitializer v"
| "legacy_segInitializer (ValueAndLengthSegmentInitializer segInitializer) v len = segInitializer v len"

text \<open>
  \<^verbatim>\<open>_rangeGetImpl\<close> and \<^verbatim>\<open>rangeGet\<close> of the first header. \<^verbatim>\<open>assert(false)\<close> is
  \<open>assertion_failed\<close>, \<open>None\<close> a call that does not return. The left part is computed
  before the right one, and the lengths handed to the combiner are \<^verbatim>\<open>m - begin\<close>
  and \<^verbatim>\<open>end - m\<close>, with the \<^verbatim>\<open>begin\<close> and \<^verbatim>\<open>end\<close> of the query; the lengths are
  of type \<^verbatim>\<open>KeyT\<close>.
\<close>

partial_function (option) legacy_rangeGetImpl ::
    "KeyT \<Rightarrow> 'v SegCombiner \<Rightarrow> 'v SegInitializer \<Rightarrow> ('v \<Rightarrow> 'u \<Rightarrow> 'v)
      \<Rightarrow> int \<Rightarrow> int \<Rightarrow> int \<Rightarrow> int \<Rightarrow> ('v, 'u) node
      \<Rightarrow> (error + 'v \<times> ('v, 'u) node) option" where
  "legacy_rangeGetImpl K segCombiner segInitializer updateOp b e currBegin currEnd currNode =
     (if b \<ge> currEnd \<or> currBegin \<ge> e then Some (Inl assertion_failed)
      else if e \<ge> currEnd \<and> b \<le> currBegin \<and> isLeaf currNode
      then Some (Inr (legacy_segInitializer segInitializer (getValue currNode)
                        (wrap K (currEnd - currBegin)),
                      currNode))
      else
        let n = siftDown updateOp currNode;
            m = mid K currBegin currEnd
        in if b \<ge> m
           then Option.bind
                  (legacy_rangeGetImpl K segCombiner segInitializer updateOp b e m currEnd
                     (getRight n))
                  (\<lambda>right. case right of
                     Inl err \<Rightarrow> Some (Inl err)
                   | Inr (x, r) \<Rightarrow> Some (Inr (x, Inner (updateValue n) (getLeft n) r)))
           else if e \<le> m
           then Option.bind
                  (legacy_rangeGetImpl K segCombiner segInitializer updateOp b e currBegin m
                     (getLeft n))
                  (\<lambda>left. case left of
                     Inl err \<Rightarrow> Some (Inl err)
                   | Inr (x, l) \<Rightarrow> Some (Inr (x, Inner (updateValue n) l (getRight n))))
           else Option.bind
                  (legacy_rangeGetImpl K segCombiner segInitializer updateOp b e currBegin m
                     (getLeft n))
                  (\<lambda>left. case left of
                     Inl err \<Rightarrow> Some (Inl err)
                   | Inr (lVal, l) \<Rightarrow>
                       Option.bind
                         (legacy_rangeGetImpl K segCombiner segInitializer updateOp b e m
                            currEnd (getRight n))
                         (\<lambda>right. case right of
                            Inl err \<Rightarrow> Some (Inl err)
                          | Inr (rVal, r) \<Rightarrow>
                              Some (Inr (legacy_segCombiner segCombiner lVal rVal
                                           (wrap K (m - b)) (wrap K (e - m)),
                                         Inner (updateValue n) l r)))))"

declare legacy_rangeGetImpl.simps [code]

definition legacy_rangeGet ::
    "KeyT \<Rightarrow> 'v SegCombiner \<Rightarrow> 'v SegInitializer \<Rightarrow> ('v \<Rightarrow> 'u \<Rightarrow> 'v)
      \<Rightarrow> ('v, 'u) DynamicSegmentTree \<Rightarrow> int \<Rightarrow> int
      \<Rightarrow> (error + 'v \<times> ('v, 'u) DynamicSegmentTree) option" where
  "legacy_rangeGet K segCombiner segInitializer updateOp t b e =
     Option.bind
       (legacy_rangeGetImpl K segCombiner segInitializer updateOp b e
          (tree_begin t) (tree_end t) (rootNode t))
       (\<lambda>res. case res of
          Inl err \<Rightarrow> Some (Inl err)
        | Inr (x, n) \<Rightarrow> Some (Inr (x, t\<lparr>rootNode := n\<rparr>)))"

text \<open>
  The results that a sequence of calls on a tree of the first header returns, in the
  order of the calls: the value of each \<^verbatim>\<open>get\<close> and of each \<^verbatim>\<open>rangeGet\<close>. A failed
  assertion ends the sequence, and \<open>None\<close> is a sequence with a call that does not
  return. The header has the one \<^verbatim>\<open>set\<close>, which takes a \<^verbatim>\<open>const ValueT&\<close>.
\<close>

fun legacy_outputs ::
    "KeyT \<Rightarrow> 'v SegCombiner \<Rightarrow> 'v SegInitializer \<Rightarrow> ('v \<Rightarrow> 'u \<Rightarrow> 'v)
      \<Rightarrow> ('v::zero, 'u) DynamicSegmentTree \<Rightarrow> ('v, 'u) call list
      \<Rightarrow> (error + 'v) list option" where
  "legacy_outputs K C I U t [] = Some []"
| "legacy_outputs K C I U t (SetCall b e v # calls) =
     Option.bind (legacy_set K U t b e v) (\<lambda>t'. legacy_outputs K C I U t' calls)"
| "legacy_outputs K C I U t (SetMoveCall b e v # calls) =
     Option.bind (legacy_set K U t b e v) (\<lambda>t'. legacy_outputs K C I U t' calls)"
| "legacy_outputs K C I U t (UpdateCall b e a # calls) =
     Option.bind (legacy_update K U t b e a) (\<lambda>t'. legacy_outputs K C I U t' calls)"
| "legacy_outputs K C I U t (GetCall k # calls) =
     (case legacy_get K U t k of
        (v, t') \<Rightarrow> map_option ((#) (Inr v)) (legacy_outputs K C I U t' calls))"
| "legacy_outputs K C I U t (RangeGetCall b e # calls) =
     Option.bind (legacy_rangeGet K C I U t b e)
       (\<lambda>res. case res of
          Inl err \<Rightarrow> Some [Inl err]
        | Inr (x, t') \<Rightarrow> map_option ((#) (Inr x)) (legacy_outputs K C I U t' calls))"

text \<open>
  A condition on the combiner and the initializer under which the value of
  \<^verbatim>\<open>_rangeGetImpl\<close> does not depend on how the leaves are split: the initializer
  of a uniform span is the combination of the initializers of its two parts.
  \<^verbatim>\<open>_rangeGetImpl\<close> hands the combiner \<^verbatim>\<open>m - begin\<close> and \<^verbatim>\<open>end - m\<close>, which
  are the lengths of the two parts only when the query begins and ends with the node,
  so the equation is asked for all lengths handed; this is more than section 3 asks,
  which has the lengths of the parts. A combiner that takes no lengths meets it as soon
  as it meets it for the lengths of the parts.
\<close>

definition legacy_consistent :: "'v SegCombiner \<Rightarrow> 'v SegInitializer \<Rightarrow> bool" where
  "legacy_consistent segCombiner segInitializer \<longleftrightarrow>
     (\<forall>v n1 n2 x y. 0 < n1 \<and> 0 < n2 \<longrightarrow>
        legacy_segCombiner segCombiner (legacy_segInitializer segInitializer v n1)
          (legacy_segInitializer segInitializer v n2) x y
        = legacy_segInitializer segInitializer v (n1 + n2))"

text \<open>
  The lengths of the spans of a tree over \<open>[bg, en)\<close> are keys when \<open>en - bg\<close> is one.
\<close>

definition legacy_no_overflow :: "KeyT \<Rightarrow> int \<Rightarrow> int \<Rightarrow> bool" where
  "legacy_no_overflow K bg en \<longleftrightarrow> no_overflow K bg en \<and> fits K (en - bg)"

text \<open>
  Two subtrees over \<open>[cb, ce)\<close> that hold the same value for every key of the span,
  and two trees over the same non-empty key range, inside which nothing overflows, both
  well formed, that hold the same value for every key. Used in the proofs only, as is
  the value of \<^verbatim>\<open>_rangeGetImpl\<close> without the node.
\<close>

definition same_on ::
    "KeyT \<Rightarrow> ('v \<Rightarrow> 'u \<Rightarrow> 'v) \<Rightarrow> int \<Rightarrow> int \<Rightarrow> ('v, 'u) node \<Rightarrow> ('v, 'u) node \<Rightarrow> bool" where
  "same_on K U cb ce n n' \<longleftrightarrow>
     (\<forall>k. cb \<le> k \<and> k < ce \<longrightarrow> value_at K U cb ce n k = value_at K U cb ce n' k)"

definition same_values ::
    "KeyT \<Rightarrow> ('v \<Rightarrow> 'u \<Rightarrow> 'v) \<Rightarrow> ('v, 'u) DynamicSegmentTree \<Rightarrow> ('v, 'u) DynamicSegmentTree
      \<Rightarrow> bool" where
  "same_values K U t t' \<longleftrightarrow>
     tree_begin t' = tree_begin t \<and> tree_end t' = tree_end t \<and> tree_begin t < tree_end t \<and>
     legacy_no_overflow K (tree_begin t) (tree_end t) \<and>
     well_formed K (tree_begin t) (tree_end t) (rootNode t) \<and>
     well_formed K (tree_begin t) (tree_end t) (rootNode t') \<and>
     same_on K U (tree_begin t) (tree_end t) (rootNode t) (rootNode t')"

definition legacy_rangeGet_value ::
    "KeyT \<Rightarrow> 'v SegCombiner \<Rightarrow> 'v SegInitializer \<Rightarrow> ('v \<Rightarrow> 'u \<Rightarrow> 'v)
      \<Rightarrow> int \<Rightarrow> int \<Rightarrow> int \<Rightarrow> int \<Rightarrow> ('v, 'u) node \<Rightarrow> (error + 'v) option" where
  "legacy_rangeGet_value K C I U b e cb ce n =
     map_option (map_sum id fst) (legacy_rangeGetImpl K C I U b e cb ce n)"

section \<open>\<^verbatim>\<open>initChildrenSiftingValue\<close>, statement by statement\<close>

text \<open>
  For the exits of \<^verbatim>\<open>BaseNode::initChildrenSiftingValue\<close> by an exception the node
  is modelled with its storage: \<^verbatim>\<open>ptr\<close> is null or points to the block of two
  nodes that \<^verbatim>\<open>AllocTraits_::allocate(allocator, 2)\<close> returned, in which a node may
  or may not have been constructed (\<^verbatim>\<open>std::construct_at(getLeft())\<close>) and may or may
  not hold a constructed value; \<^verbatim>\<open>buffer_\<close> holds the value of the node or, after
  \<^verbatim>\<open>std::destroy_at(getValuePtr())\<close>, none.

  The value type \<^verbatim>\<open>T\<close> is a template parameter, so its constructors are parameters
  of the model. Whether a constructor throws may depend on more than its argument (a
  copy that allocates can succeed for the left child and fail for the right one), so a
  constructor is given the number of values that the call has constructed before. A
  copy construction returns the new value or throws (\<open>None\<close>); its argument is a
  \<^verbatim>\<open>const T&\<close> and stays as it was. \<^verbatim>\<open>move_construct\<close> is \<open>None\<close> when
  \<^verbatim>\<open>std::move_constructible<T>\<close> is false; otherwise it gives the new value, or
  \<open>None\<close> when the constructor throws, and the value the source is left with.
\<close>

record 'v T_constructors =
  copy_construct :: "nat \<Rightarrow> 'v \<Rightarrow> 'v option"
  move_construct :: "(nat \<Rightarrow> 'v \<Rightarrow> 'v option \<times> 'v) option"

record 'v children_block =
  left_constructed :: bool
  left_value :: "'v option"
  right_constructed :: bool
  right_value :: "'v option"

record 'v BaseNode =
  ptr :: "'v children_block option"
  buffer :: "'v option"

text \<open>
  The allocator: the number of blocks it has handed out and not got back, and the
  number of objects that were still constructed in a block when it got it back.
\<close>

record allocator =
  allocated :: nat
  undestroyed :: nat

text \<open>
  How a call ends: it returns, it throws (tagged with the statement that threw), or
  its assertion \<^verbatim>\<open>isLeaf()\<close> fails.
\<close>

datatype thrown = allocation | left_value_construction | right_value_construction

datatype outcome = Returned | Threw thrown | Aborted

definition fresh_block :: "'v children_block" where
  "fresh_block = \<lparr>left_constructed = False, left_value = None,
                  right_constructed = False, right_value = None\<rparr>"

definition deallocate :: "'v children_block \<Rightarrow> allocator \<Rightarrow> allocator" where
  "deallocate blk al =
     \<lparr>allocated = allocated al - 1,
      undestroyed = undestroyed al
        + (if left_constructed blk then 1 else 0) + (if left_value blk \<noteq> None then 1 else 0)
        + (if right_constructed blk then 1 else 0) + (if right_value blk \<noteq> None then 1 else 0)\<rparr>"

text \<open>
  The construction of the right child's value, the second value that the call
  constructs: \<^verbatim>\<open>std::move(getValue())\<close> under
  \<^verbatim>\<open>if constexpr (std::move_constructible<T>)\<close>, a copy otherwise.
\<close>

definition construct_right_value :: "'v T_constructors \<Rightarrow> 'v \<Rightarrow> 'v option \<times> 'v" where
  "construct_right_value T v =
     (case move_construct T of
        Some move \<Rightarrow> move 1 v
      | None \<Rightarrow> (copy_construct T 1 v, v))"

text \<open>
  The function. \<open>blk1\<close> to \<open>blk6\<close> are the block after each statement: the left node
  constructed, its value constructed, the right node constructed, and in the second
  handler \<^verbatim>\<open>destroy_at(getLeft()->getValuePtr())\<close>, \<^verbatim>\<open>destroy_at(getLeft())\<close>,
  \<^verbatim>\<open>destroy_at(getRight())\<close>. \<^verbatim>\<open>deallocate\<close> is given the block as the handler
  leaves it. A node with children fails the assertion; a leaf always holds a value,
  and a node without one is given the same outcome.
\<close>

definition initChildrenSiftingValue ::
    "'v T_constructors \<Rightarrow> bool \<Rightarrow> 'v BaseNode \<Rightarrow> allocator
      \<Rightarrow> outcome \<times> 'v BaseNode \<times> allocator" where
  "initChildrenSiftingValue T allocate_throws node al =
     (case (ptr node, buffer node) of
        (None, Some v) \<Rightarrow>
          if allocate_throws then (Threw allocation, node, al)
          else
            let al1 = al\<lparr>allocated := allocated al + 1\<rparr>;
                blk1 = fresh_block\<lparr>left_constructed := True\<rparr>
            in (case copy_construct T 0 v of
                  None \<Rightarrow>
                    let blk2 = blk1\<lparr>left_constructed := False\<rparr>;
                        al2 = deallocate blk2 al1
                    in (Threw left_value_construction, node\<lparr>ptr := None\<rparr>, al2)
                | Some lv \<Rightarrow>
                    let blk2 = blk1\<lparr>left_value := Some lv\<rparr>;
                        blk3 = blk2\<lparr>right_constructed := True\<rparr>
                    in (case construct_right_value T v of
                          (None, v') \<Rightarrow>
                            let blk4 = blk3\<lparr>left_value := None\<rparr>;
                                blk5 = blk4\<lparr>left_constructed := False\<rparr>;
                                blk6 = blk5\<lparr>right_constructed := False\<rparr>;
                                al2 = deallocate blk6 al1
                            in (Threw right_value_construction,
                                node\<lparr>ptr := None, buffer := Some v'\<rparr>, al2)
                        | (Some rv, v') \<Rightarrow>
                            (Returned,
                             \<lparr>ptr = Some (blk3\<lparr>right_value := Some rv\<rparr>), buffer = None\<rparr>,
                             al1)))
      | _ \<Rightarrow> (Aborted, node, al))"

text \<open>A move constructor that throws leaves its source as it was.\<close>

definition failed_move_keeps_source :: "'v T_constructors \<Rightarrow> bool" where
  "failed_move_keeps_source T \<longleftrightarrow>
     (\<forall>move i v. move_construct T = Some move \<and> fst (move i v) = None \<longrightarrow> snd (move i v) = v)"

section \<open>Properties of the node operations and of the descents\<close>

subsection \<open>The message of \<^verbatim>\<open>get\<close>\<close>

text \<open>The decimal numeral of a key determines the key.\<close>

lemma digit_char_inj:
  assumes "a < 10" "b < 10" "(char_of (48 + a) :: char) = char_of (48 + b)"
  shows "a = (b::nat)"
proof -
  have "take_bit 8 (48 + a) = (48 + b) mod 256"
    using assms(3) by (simp add: char_of_eq_iff)
  moreover have "take_bit 8 (48 + a) = 48 + a" "(48 + b) mod 256 = 48 + b"
    using assms(1,2) by (simp_all add: take_bit_nat_eq_self)
  ultimately show ?thesis
    by simp
qed

lemma digit_char_not_minus:
  assumes "(a::nat) < 10"
  shows "(char_of (48 + a) :: char) \<noteq> CHR ''-''"
proof
  have minus: "CHR ''-'' = (char_of (45::nat) :: char)"
    by code_simp
  assume "(char_of (48 + a) :: char) = CHR ''-''"
  then have "take_bit 8 (48 + a) = (45::nat) mod 256"
    unfolding minus by (simp add: char_of_eq_iff)
  moreover have "take_bit 8 (48 + a) = 48 + a"
    using assms by (simp add: take_bit_nat_eq_self)
  ultimately show False
    by simp
qed

lemma digits_not_Nil: "digits n \<noteq> []"
  by (subst digits.simps) simp

lemma minus_not_in_digits: "CHR ''-'' \<notin> set (digits n)"
proof (induction n rule: digits.induct)
  case (1 n)
  show ?case
  proof (cases "n < 10")
    case True
    then show ?thesis
      using digit_char_not_minus [of n] by (subst digits.simps) auto
  next
    case False
    then show ?thesis
      using 1 digit_char_not_minus [of "n mod 10"] by (subst digits.simps) auto
  qed
qed

lemma digits_inj: "digits n = digits m \<Longrightarrow> n = m"
proof (induction n arbitrary: m rule: digits.induct)
  case (1 n)
  show ?case
  proof (cases "n < 10")
    case small: True
    show ?thesis
    proof (cases "m < 10")
      case True
      then show ?thesis
        using small "1.prems" digit_char_inj [of n m]
        by (simp add: digits.simps [of n] digits.simps [of m])
    next
      case False
      then show ?thesis
        using small "1.prems" digits_not_Nil [of "m div 10"]
        by (simp add: digits.simps [of n] digits.simps [of m])
    qed
  next
    case big: False
    show ?thesis
    proof (cases "m < 10")
      case True
      then show ?thesis
        using big "1.prems" digits_not_Nil [of "n div 10"]
        by (simp add: digits.simps [of n] digits.simps [of m])
    next
      case False
      then have "digits (n div 10) = digits (m div 10)"
        "(char_of (48 + n mod 10) :: char) = char_of (48 + m mod 10)"
        using big "1.prems" by (simp_all add: digits.simps [of n] digits.simps [of m])
      then have "n div 10 = m div 10" "n mod 10 = m mod 10"
        using "1.IH" [OF big] digit_char_inj [of "n mod 10" "m mod 10"] by auto
      then show ?thesis
        by (metis div_mult_mod_eq)
    qed
  qed
qed

lemma show_key_inj: "show_key k = show_key j \<Longrightarrow> k = j"
proof -
  assume eq: "show_key k = show_key j"
  have hd: "hd (digits n) \<noteq> CHR ''-''" for n
    using minus_not_in_digits [of n] digits_not_Nil [of n] by (cases "digits n") auto
  consider "k < 0" "j < 0" | "k < 0" "0 \<le> j" | "0 \<le> k" "j < 0" | "0 \<le> k" "0 \<le> j"
    by linarith
  then show ?thesis
  proof cases
    case 1
    then show ?thesis using eq digits_inj [of "nat (- k)" "nat (- j)"] by (simp add: show_key_def)
  next
    case 2
    then show ?thesis
      using eq hd [of "nat j"] by (auto simp: show_key_def dest: arg_cong [where f = hd])
  next
    case 3
    then show ?thesis
      using eq hd [of "nat k"] by (auto simp: show_key_def dest: arg_cong [where f = hd])
  next
    case 4
    then show ?thesis using eq digits_inj [of "nat k" "nat j"] by (simp add: show_key_def)
  qed
qed

subsection \<open>Node operations\<close>

lemma value_at_update:
  "value_at K U cb ce (update U a n) k = U (value_at K U cb ce n k) a"
  by (induction U a n arbitrary: cb ce rule: update.induct) (simp_all add: Let_def)

lemma value_at_siftOptUpdate:
  "value_at K U cb ce (siftOptUpdate U n) k = value_at K U cb ce n k"
  by (induction U n rule: siftOptUpdate.induct) (simp_all add: Let_def value_at_update)

lemma topology_of_update: "topology_of (update U a n) = topology_of n"
  by (induction U a n rule: update.induct) simp_all

lemma topology_of_siftOptUpdate: "topology_of (siftOptUpdate U n) = topology_of n"
  by (induction U n rule: siftOptUpdate.induct) (simp_all add: topology_of_update)

lemma getImpl_Leaf: "getImpl K U k cb ce (Leaf v) = (v, Leaf v)"
  by (simp add: getImpl.simps)

lemma getImpl_Inner:
  "getImpl K U k cb ce (Inner p l r) =
     (let n = siftOptUpdate U (Inner p l r); m = mid K cb ce
      in if k \<ge> m
         then (case getImpl K U k m ce (getRight n) of
                 (v, r') \<Rightarrow> (v, Inner (updateValue n) (getLeft n) r'))
         else (case getImpl K U k cb m (getLeft n) of
                 (v, l') \<Rightarrow> (v, Inner (updateValue n) l' (getRight n))))"
  by (subst getImpl.simps) (simp add: optionalSiftNodeUpdate_def)

lemma getImpl_value: "fst (getImpl K U k cb ce n) = value_at K U cb ce n k"
proof (induction K U k cb ce n rule: getImpl.induct)
  case (1 K U k cb ce n)
  show ?case
  proof (cases n)
    case (Leaf v)
    then show ?thesis by (simp add: getImpl_Leaf)
  next
    case (Inner p l r)
    with 1 show ?thesis
      by (cases p)
         (auto simp: getImpl_Inner Let_def optionalSiftNodeUpdate_def value_at_update
               split: prod.splits)
  qed
qed

lemma getImpl_topology: "topology_of (snd (getImpl K U k cb ce n)) = topology_of n"
proof (induction K U k cb ce n rule: getImpl.induct)
  case (1 K U k cb ce n)
  show ?case
  proof (cases n)
    case (Leaf v)
    then show ?thesis by (simp add: getImpl_Leaf)
  next
    case (Inner p l r)
    with 1 show ?thesis
      by (cases p)
         (auto simp: getImpl_Inner Let_def optionalSiftNodeUpdate_def topology_of_update
               split: prod.splits)
  qed
qed

lemma getImpl_value_at:
  "value_at K U cb ce (snd (getImpl K U k cb ce n)) j = value_at K U cb ce n j"
proof (induction K U k cb ce n rule: getImpl.induct)
  case (1 K U k cb ce n)
  show ?case
  proof (cases n)
    case (Leaf v)
    then show ?thesis by (simp add: getImpl_Leaf)
  next
    case (Inner p l r)
    with 1 show ?thesis
      by (cases p)
         (auto simp: getImpl_Inner Let_def optionalSiftNodeUpdate_def value_at_update
               split: prod.splits)
  qed
qed

lemma opened_cases:
  obtains l r where "opened U n = Inner None l r"
proof (cases n)
  case (Leaf v)
  then show ?thesis using that by (simp add: opened_def optionalSiftNodeUpdate_def)
next
  case (Inner p l r)
  then show ?thesis using that by (cases p) (simp_all add: opened_def optionalSiftNodeUpdate_def)
qed

lemma value_at_opened: "value_at K U cb ce (opened U n) k = value_at K U cb ce n k"
  by (cases n) (simp_all add: opened_def optionalSiftNodeUpdate_def value_at_siftOptUpdate)

subsection \<open>Well-formed nodes\<close>

lemma well_formed_update: "well_formed K cb ce (update U a n) = well_formed K cb ce n"
  by (induction U a n arbitrary: cb ce rule: update.induct) simp_all

lemma well_formed_siftOptUpdate: "well_formed K cb ce (siftOptUpdate U n) = well_formed K cb ce n"
  by (induction U n rule: siftOptUpdate.induct) (simp_all add: well_formed_update)

lemma well_formed_opened:
  assumes "well_formed K cb ce n" "opened U n = Inner p l r"
  shows "well_formed K cb (mid K cb ce) l \<and> well_formed K (mid K cb ce) ce r"
proof (cases n)
  case (Leaf v)
  with assms show ?thesis
    by (auto simp: opened_def optionalSiftNodeUpdate_def)
next
  case (Inner q l0 r0)
  with assms show ?thesis
    by (cases q) (auto simp: opened_def optionalSiftNodeUpdate_def well_formed_update)
qed

lemma opened_span:
  assumes "well_formed K cb ce n" "\<not> isLeaf n \<or> (cb < e \<and> b < ce \<and> \<not> (ce \<le> e \<and> b \<le> cb))"
  shows "cb + 2 \<le> ce"
  using assms overlap_not_covered_span [of cb e b ce] by (cases n) auto

subsection \<open>\<^verbatim>\<open>setImpl_\<close>\<close>

lemma setImpl_cover:
  "cb < e \<Longrightarrow> b < ce \<Longrightarrow> b < e \<Longrightarrow> ce \<le> e \<Longrightarrow> b \<le> cb \<Longrightarrow>
     setImpl K U b e cb ce n v = Some (Inr (Leaf v))"
  by (cases n) (simp_all add: setImpl.simps)

lemma setImpl_descend:
  assumes "cb < e" "b < ce" "b < e" "\<not> (ce \<le> e \<and> b \<le> cb)" "opened U n = Inner p l r"
  shows "setImpl K U b e cb ce n v =
     Option.bind
       (if b < mid K cb ce then setImpl K U b e cb (mid K cb ce) l v else Some (Inr l))
       (\<lambda>left. case left of
          Inl err \<Rightarrow> Some (Inl err)
        | Inr l' \<Rightarrow>
            Option.bind
              (if mid K cb ce < e then setImpl K U b e (mid K cb ce) ce r v
               else Some (Inr r))
              (\<lambda>right. case right of
                 Inl err \<Rightarrow> Some (Inl err)
               | Inr r' \<Rightarrow> Some (Inr (Inner p l' r'))))"
  using assms by (subst setImpl.simps) (auto simp: opened_def Let_def)

text \<open>
  Where its assertions hold, \<^verbatim>\<open>setImpl_\<close> returns, and the node it leaves holds \<open>v\<close>
  for the keys of \<open>[b, e)\<close> and the old value for the other keys of its span.
\<close>

lemma setImpl_value_at:
  assumes "cb < e" "b < ce" "b < e" "no_overflow K cb ce"
  shows "\<exists>n'. setImpl K U b e cb ce n v = Some (Inr n') \<and>
     (\<forall>k. cb \<le> k \<and> k < ce \<longrightarrow>
        value_at K U cb ce n' k = (if b \<le> k \<and> k < e then v else value_at K U cb ce n k)) \<and>
     (well_formed K cb ce n \<longrightarrow> well_formed K cb ce n')"
  using assms
proof (induction "nat (ce - cb)" arbitrary: cb ce n rule: less_induct)
  case less
  show ?case
  proof (cases "ce \<le> e \<and> b \<le> cb")
    case True
    with less.prems show ?thesis
      by (auto simp: setImpl_cover)
  next
    case False
    obtain l r where op: "opened U n = Inner None l r"
      by (rule opened_cases)
    let ?m = "mid K cb ce"
    have two: "cb + 2 \<le> ce"
      using overlap_not_covered_span [of cb e b ce] less.prems False by auto
    then have span: "cb < ?m" "?m < ce"
      using mid_between [OF less.prems(4)] by auto
    have no: "no_overflow K cb ?m" "no_overflow K ?m ce"
      using no_overflow_span [OF less.prems(4)] span by auto
    have old: "value_at K U cb ce n k =
        (if k \<ge> ?m then value_at K U ?m ce r k else value_at K U cb ?m l k)" for k
      using value_at_opened [of K U cb ce n k] op by simp
    have wf: "well_formed K cb ?m l \<and> well_formed K ?m ce r" if "well_formed K cb ce n"
      using well_formed_opened [OF that op] .
    obtain l' where l': "(if b < ?m then setImpl K U b e cb ?m l v else Some (Inr l)) = Some (Inr l')"
      and vl: "\<forall>k. cb \<le> k \<and> k < ?m \<longrightarrow>
        value_at K U cb ?m l' k = (if b \<le> k \<and> k < e then v else value_at K U cb ?m l k)"
      and wl: "well_formed K cb ?m l \<longrightarrow> well_formed K cb ?m l'"
    proof (cases "b < ?m")
      case True
      then show ?thesis
        using less.hyps [of ?m cb l] less.prems span no that by auto
    next
      case False
      then show ?thesis using that [of l] by auto
    qed
    obtain r' where r': "(if ?m < e then setImpl K U b e ?m ce r v else Some (Inr r)) = Some (Inr r')"
      and vr: "\<forall>k. ?m \<le> k \<and> k < ce \<longrightarrow>
        value_at K U ?m ce r' k = (if b \<le> k \<and> k < e then v else value_at K U ?m ce r k)"
      and wr: "well_formed K ?m ce r \<longrightarrow> well_formed K ?m ce r'"
    proof (cases "?m < e")
      case True
      then show ?thesis
        using less.hyps [of ce ?m r] less.prems span no that by auto
    next
      case False
      then show ?thesis using that [of r] by auto
    qed
    have res: "setImpl K U b e cb ce n v = Some (Inr (Inner None l' r'))"
      using setImpl_descend [OF less.prems(1,2,3) False op, of K v] l' r' by simp
    have "\<forall>k. cb \<le> k \<and> k < ce \<longrightarrow> value_at K U cb ce (Inner None l' r') k
        = (if b \<le> k \<and> k < e then v else value_at K U cb ce n k)"
      using vl vr old by (auto simp: Let_def)
    moreover have "well_formed K cb ce n \<longrightarrow> well_formed K cb ce (Inner None l' r')"
      using wf wl wr two by simp
    ultimately show ?thesis
      unfolding res by blast
  qed
qed

text \<open>The two overloads of \<^verbatim>\<open>setImpl_\<close>, and so of \<^verbatim>\<open>set\<close>, do the same.\<close>

lemma setImpl_move_eq:
  "no_overflow K cb ce \<Longrightarrow> setImpl_move K U b e cb ce n v = setImpl K U b e cb ce n v"
proof (induction "nat (ce - cb)" arbitrary: cb ce n rule: less_induct)
  case less
  show ?case
  proof (cases "cb < e \<and> b < ce \<and> b < e \<and> \<not> (ce \<le> e \<and> b \<le> cb)")
    case False
    then show ?thesis
      by (subst setImpl_move.simps, subst setImpl.simps) auto
  next
    case True
    then have ov: "cb < e" "b < ce" "b < e" and nc: "\<not> (ce \<le> e \<and> b \<le> cb)"
      by auto
    obtain l r where op: "opened U n = Inner None l r"
      by (rule opened_cases)
    let ?m = "mid K cb ce"
    have span: "cb < ?m" "?m < ce"
      using mid_between [OF less.prems] overlap_not_covered_span [of cb e b ce] ov nc by auto
    have no: "no_overflow K cb ?m" "no_overflow K ?m ce"
      using no_overflow_span [OF less.prems] span by auto
    have ih: "setImpl_move K U b e cb ?m l v = setImpl K U b e cb ?m l v"
      "setImpl_move K U b e ?m ce r v = setImpl K U b e ?m ce r v"
      using less.hyps [of ?m cb l] less.hyps [of ce ?m r] span no by auto
    have "setImpl_move K U b e cb ce n v =
       (if ?m \<ge> e
        then Option.bind (setImpl_move K U b e cb ?m l v)
               (\<lambda>left. case left of
                  Inl err \<Rightarrow> Some (Inl err) | Inr l' \<Rightarrow> Some (Inr (Inner None l' r)))
        else if ?m \<le> b
        then Option.bind (setImpl_move K U b e ?m ce r v)
               (\<lambda>right. case right of
                  Inl err \<Rightarrow> Some (Inl err) | Inr r' \<Rightarrow> Some (Inr (Inner None l r')))
        else Option.bind (setImpl K U b e cb ?m l v)
               (\<lambda>left. case left of
                  Inl err \<Rightarrow> Some (Inl err)
                | Inr l' \<Rightarrow>
                    Option.bind (setImpl_move K U b e ?m ce r v)
                      (\<lambda>right. case right of
                         Inl err \<Rightarrow> Some (Inl err)
                       | Inr r' \<Rightarrow> Some (Inr (Inner None l' r')))))"
      using ov nc op
      by (subst setImpl_move.simps) (auto simp: opened_def Let_def)
    then show ?thesis
      unfolding setImpl_descend [OF ov nc op] ih using ov
      by (auto split: sum.splits Option.bind_splits)
  qed
qed

lemma dst_set_move_eq:
  "no_overflow K (tree_begin t) (tree_end t) \<Longrightarrow> dst_set_move K U t b e v = dst_set K U t b e v"
  by (simp add: dst_set_move_def dst_set_def setImpl_move_eq)

subsection \<open>\<^verbatim>\<open>updateImpl_\<close>\<close>

lemma updateImpl_empty_range: "e \<le> b \<Longrightarrow> updateImpl K U b e cb ce n a = Some (Inr n)"
  by (simp add: updateImpl.simps)

lemma updateImpl_cover:
  "cb < e \<Longrightarrow> b < ce \<Longrightarrow> b < e \<Longrightarrow> ce \<le> e \<Longrightarrow> b \<le> cb \<Longrightarrow>
     updateImpl K U b e cb ce n a = Some (Inr (update U a n))"
  by (simp add: updateImpl.simps)

lemma updateImpl_descend:
  assumes "cb < e" "b < ce" "b < e" "\<not> (ce \<le> e \<and> b \<le> cb)" "opened U n = Inner p l r"
  shows "updateImpl K U b e cb ce n a =
     Option.bind
       (if b < mid K cb ce then updateImpl K U b e cb (mid K cb ce) l a else Some (Inr l))
       (\<lambda>left. case left of
          Inl err \<Rightarrow> Some (Inl err)
        | Inr l' \<Rightarrow>
            Option.bind
              (if mid K cb ce < e then updateImpl K U b e (mid K cb ce) ce r a
               else Some (Inr r))
              (\<lambda>right. case right of
                 Inl err \<Rightarrow> Some (Inl err)
               | Inr r' \<Rightarrow> Some (Inr (Inner p l' r'))))"
  using assms by (subst updateImpl.simps) (auto simp: opened_def Let_def)

text \<open>
  Likewise \<^verbatim>\<open>updateImpl_\<close>: the node it leaves holds, for the keys of \<open>[b, e)\<close>, the
  old value updated with the argument.
\<close>

lemma updateImpl_value_at:
  assumes "cb < e" "b < ce" "b < e" "no_overflow K cb ce"
  shows "\<exists>n'. updateImpl K U b e cb ce n a = Some (Inr n') \<and>
     (\<forall>k. cb \<le> k \<and> k < ce \<longrightarrow>
        value_at K U cb ce n' k
        = (if b \<le> k \<and> k < e then U (value_at K U cb ce n k) a else value_at K U cb ce n k)) \<and>
     (well_formed K cb ce n \<longrightarrow> well_formed K cb ce n')"
  using assms
proof (induction "nat (ce - cb)" arbitrary: cb ce n rule: less_induct)
  case less
  show ?case
  proof (cases "ce \<le> e \<and> b \<le> cb")
    case True
    with less.prems show ?thesis
      by (auto simp: updateImpl_cover value_at_update well_formed_update)
  next
    case False
    obtain l r where op: "opened U n = Inner None l r"
      by (rule opened_cases)
    let ?m = "mid K cb ce"
    have two: "cb + 2 \<le> ce"
      using overlap_not_covered_span [of cb e b ce] less.prems False by auto
    then have span: "cb < ?m" "?m < ce"
      using mid_between [OF less.prems(4)] by auto
    have no: "no_overflow K cb ?m" "no_overflow K ?m ce"
      using no_overflow_span [OF less.prems(4)] span by auto
    have old: "value_at K U cb ce n k =
        (if k \<ge> ?m then value_at K U ?m ce r k else value_at K U cb ?m l k)" for k
      using value_at_opened [of K U cb ce n k] op by simp
    have wf: "well_formed K cb ?m l \<and> well_formed K ?m ce r" if "well_formed K cb ce n"
      using well_formed_opened [OF that op] .
    obtain l' where l': "(if b < ?m then updateImpl K U b e cb ?m l a else Some (Inr l)) = Some (Inr l')"
      and vl: "\<forall>k. cb \<le> k \<and> k < ?m \<longrightarrow> value_at K U cb ?m l' k
        = (if b \<le> k \<and> k < e then U (value_at K U cb ?m l k) a else value_at K U cb ?m l k)"
      and wl: "well_formed K cb ?m l \<longrightarrow> well_formed K cb ?m l'"
    proof (cases "b < ?m")
      case True
      then show ?thesis
        using less.hyps [of ?m cb l] less.prems span no that by auto
    next
      case False
      then show ?thesis using that [of l] by auto
    qed
    obtain r' where r': "(if ?m < e then updateImpl K U b e ?m ce r a else Some (Inr r)) = Some (Inr r')"
      and vr: "\<forall>k. ?m \<le> k \<and> k < ce \<longrightarrow> value_at K U ?m ce r' k
        = (if b \<le> k \<and> k < e then U (value_at K U ?m ce r k) a else value_at K U ?m ce r k)"
      and wr: "well_formed K ?m ce r \<longrightarrow> well_formed K ?m ce r'"
    proof (cases "?m < e")
      case True
      then show ?thesis
        using less.hyps [of ce ?m r] less.prems span no that by auto
    next
      case False
      then show ?thesis using that [of r] by auto
    qed
    have res: "updateImpl K U b e cb ce n a = Some (Inr (Inner None l' r'))"
      using updateImpl_descend [OF less.prems(1,2,3) False op, of K a] l' r' by simp
    have "\<forall>k. cb \<le> k \<and> k < ce \<longrightarrow> value_at K U cb ce (Inner None l' r') k
        = (if b \<le> k \<and> k < e then U (value_at K U cb ce n k) a else value_at K U cb ce n k)"
      using vl vr old by (auto simp: Let_def)
    moreover have "well_formed K cb ce n \<longrightarrow> well_formed K cb ce (Inner None l' r')"
      using wf wl wr two by simp
    ultimately show ?thesis
      unfolding res by blast
  qed
qed

subsection \<open>The reference fold\<close>

lemma combineGet_ref: "combineGet C x y lo m hi = ref_combine C x y lo m hi"
  by (cases C) simp_all

lemma initGet_ref: "initGet I lo hi v = ref_init I lo hi v"
  by (cases I) simp_all

lemma ref_rangeGet_single:
  "ref_rangeGet C I f b (b + 1) = ref_init I b (b + 1) (f b)"
  by (simp add: ref_rangeGet_def)

lemma ref_rangeGet_step:
  assumes "b < e"
  shows "ref_rangeGet C I f b (e + 1)
    = ref_combine C (ref_rangeGet C I f b e) (ref_init I e (e + 1) (f e)) b e (e + 1)"
proof -
  have "[b + 1..e] = [b + 1..e - 1] @ [e]"
    using assms upto_rec2 [of "b + 1" e] by simp
  then show ?thesis
    by (simp add: ref_rangeGet_def)
qed

lemma ref_rangeGet_cong:
  assumes "b < e" "\<forall>k. b \<le> k \<and> k < e \<longrightarrow> f k = g k"
  shows "ref_rangeGet C I f b e = ref_rangeGet C I g b e"
  using assms
proof (induction e rule: int_gr_induct)
  case base
  then show ?case by (simp add: ref_rangeGet_single)
next
  case (step e)
  then show ?case by (simp add: ref_rangeGet_step)
qed

lemma ref_rangeGet_split:
  assumes "associative_on C I f qb qe" "qb \<le> b" "b < m"
  shows "m < e \<Longrightarrow> e \<le> qe \<Longrightarrow>
    ref_rangeGet C I f b e
      = ref_combine C (ref_rangeGet C I f b m) (ref_rangeGet C I f m e) b m e"
proof (induction e rule: int_gr_induct)
  case base
  then show ?case
    using assms(3) by (simp add: ref_rangeGet_step ref_rangeGet_single)
next
  case (step e)
  let ?R = "ref_rangeGet C I f"
  have "?R b (e + 1)
      = ref_combine C (ref_combine C (?R b m) (?R m e) b m e) (?R e (e + 1)) b e (e + 1)"
    using step assms(3) by (simp add: ref_rangeGet_step ref_rangeGet_single)
  also have "\<dots> = ref_combine C (?R b m) (ref_combine C (?R m e) (?R e (e + 1)) m e (e + 1))
      b m (e + 1)"
    using assms step.hyps step.prems unfolding associative_on_def by simp
  also have "\<dots> = ref_combine C (?R b m) (?R m (e + 1)) b m (e + 1)"
    using step.hyps by (simp add: ref_rangeGet_step ref_rangeGet_single)
  finally show ?case .
qed



subsection \<open>\<^verbatim>\<open>rangeGetImpl_\<close>\<close>

lemma rangeGetImpl_leaf:
  assumes "\<not> (b > ce \<or> cb > e)" "ce \<le> e" "b \<le> cb"
  shows "rangeGetImpl K C I U b e cb ce (Leaf v) = Some (Inr (initGet I cb ce v, Leaf v))"
  using assms by (simp add: rangeGetImpl.simps)

lemma rangeGetImpl_descend:
  assumes "\<not> (b > ce \<or> cb > e)" "\<not> (ce \<le> e \<and> b \<le> cb \<and> isLeaf n)"
    "opened U n = Inner p l r"
  shows "rangeGetImpl K C I U b e cb ce n =
     (if b \<ge> mid K cb ce
      then Option.bind (rangeGetImpl K C I U b e (mid K cb ce) ce r)
             (\<lambda>right. case right of
                Inl err \<Rightarrow> Some (Inl err)
              | Inr (x, r') \<Rightarrow> Some (Inr (x, Inner p l r')))
      else if e \<le> mid K cb ce
      then Option.bind (rangeGetImpl K C I U b e cb (mid K cb ce) l)
             (\<lambda>left. case left of
                Inl err \<Rightarrow> Some (Inl err)
              | Inr (x, l') \<Rightarrow> Some (Inr (x, Inner p l' r)))
      else Option.bind (rangeGetImpl K C I U b e (mid K cb ce) ce r)
             (\<lambda>right. case right of
                Inl err \<Rightarrow> Some (Inl err)
              | Inr (rVal, r') \<Rightarrow>
                  Option.bind (rangeGetImpl K C I U b e cb (mid K cb ce) l)
                    (\<lambda>left. case left of
                       Inl err \<Rightarrow> Some (Inl err)
                     | Inr (lVal, l') \<Rightarrow>
                         Some (Inr (combineGet C lVal rVal (max cb b) (mid K cb ce) (min ce e),
                                    Inner p l' r')))))"
  using assms
  by (subst rangeGetImpl.simps) (auto simp: opened_def Let_def)

text \<open>
  Where no sum overflows, \<^verbatim>\<open>rangeGetImpl_\<close> returns on a well-formed node whose span
  meets a non-empty range. It leaves a well-formed node that holds the same value for
  every key, and under the requirements on the combiner and the initializer its
  result is the reference fold over the keys of the range that lie in the span.
\<close>

lemma rangeGetImpl_correct:
  "well_formed K cb ce n \<Longrightarrow> no_overflow K cb ce \<Longrightarrow> b < e \<Longrightarrow> cb < e \<Longrightarrow> b < ce \<Longrightarrow> cb < ce \<Longrightarrow>
    \<exists>x n'. rangeGetImpl K C I U b e cb ce n = Some (Inr (x, n'))
        \<and> (\<forall>k. value_at K U cb ce n' k = value_at K U cb ce n k)
        \<and> well_formed K cb ce n'
        \<and> (\<forall>f. associative_on C I f b e \<and> consistent_on C I f b e
               \<and> (\<forall>k. max cb b \<le> k \<and> k < min ce e \<longrightarrow> value_at K U cb ce n k = f k)
             \<longrightarrow> x = ref_rangeGet C I f (max cb b) (min ce e))"
proof (induction "nat (ce - cb)" arbitrary: cb ce n rule: less_induct)
  case less
  let ?g = "value_at K U cb ce n"
  have guard: "\<not> (b > ce \<or> cb > e)"
    using less.prems by simp
  show ?case
  proof (cases "ce \<le> e \<and> b \<le> cb \<and> isLeaf n")
    case True
    then obtain v where n: "n = Leaf v"
      by (cases n) auto
    have bounds: "max cb b = cb" "min ce e = ce"
      using True by auto
    have "initGet I cb ce v = ref_rangeGet C I f cb ce"
      if "consistent_on C I f b e" "\<forall>k. cb \<le> k \<and> k < ce \<longrightarrow> v = f k" for f
    proof -
      have "ref_init I cb ce v = ref_rangeGet C I f cb ce"
        using that True less.prems(6) unfolding consistent_on_def by auto
      then show ?thesis by (simp add: initGet_ref)
    qed
    then show ?thesis
      using True guard n bounds by (simp add: rangeGetImpl_leaf)
  next
    case False
    obtain l r where op: "opened U n = Inner None l r"
      by (rule opened_cases)
    let ?m = "mid K cb ce"
    have two: "cb + 2 \<le> ce"
      using opened_span [of K cb ce n e b] less.prems False by auto
    then have span: "cb < ?m" "?m < ce"
      using mid_between [OF less.prems(2)] by auto
    have no: "no_overflow K cb ?m" "no_overflow K ?m ce"
      using no_overflow_span [OF less.prems(2)] span by auto
    have wf: "well_formed K cb ?m l" "well_formed K ?m ce r"
      using well_formed_opened [OF less.prems(1) op] by auto
    have old: "?g k = (if k \<ge> ?m then value_at K U ?m ce r k else value_at K U cb ?m l k)" for k
      using value_at_opened [of K U cb ce n k] op by simp
    note unfold = rangeGetImpl_descend [OF guard False op, of K C I]
    consider (right) "b \<ge> ?m" | (left) "b < ?m" "e \<le> ?m" | (both) "b < ?m" "?m < e"
      by linarith
    then show ?thesis
    proof cases
      case right
      obtain rVal r' where r': "rangeGetImpl K C I U b e ?m ce r = Some (Inr (rVal, r'))"
        and vr: "\<forall>k. value_at K U ?m ce r' k = value_at K U ?m ce r k"
        and wr: "well_formed K ?m ce r'"
        and xr: "\<forall>f. associative_on C I f b e \<and> consistent_on C I f b e
               \<and> (\<forall>k. max ?m b \<le> k \<and> k < min ce e \<longrightarrow> value_at K U ?m ce r k = f k)
             \<longrightarrow> rVal = ref_rangeGet C I f (max ?m b) (min ce e)"
        using less.hyps [of ce ?m r] wf(2) no(2) right less.prems span
        by auto
      have mx: "max ?m b = max cb b"
        using right span by simp
      have "\<forall>f. associative_on C I f b e \<and> consistent_on C I f b e
               \<and> (\<forall>k. max cb b \<le> k \<and> k < min ce e \<longrightarrow> ?g k = f k)
             \<longrightarrow> rVal = ref_rangeGet C I f (max cb b) (min ce e)"
      proof (intro allI impI, elim conjE)
        fix f
        assume a: "associative_on C I f b e" "consistent_on C I f b e"
          and v: "\<forall>k. max cb b \<le> k \<and> k < min ce e \<longrightarrow> ?g k = f k"
        have "value_at K U ?m ce r k = f k" if "max ?m b \<le> k \<and> k < min ce e" for k
          using v [rule_format, of k] old [of k] that right span by simp
        then have "\<forall>k. max ?m b \<le> k \<and> k < min ce e \<longrightarrow> value_at K U ?m ce r k = f k"
          by blast
        then show "rVal = ref_rangeGet C I f (max cb b) (min ce e)"
          using xr a mx by auto
      qed
      moreover have "rangeGetImpl K C I U b e cb ce n = Some (Inr (rVal, Inner None l r'))"
        unfolding unfold using right r' by simp
      moreover have "\<forall>k. value_at K U cb ce (Inner None l r') k = ?g k"
        using vr old by simp
      moreover have "well_formed K cb ce (Inner None l r')"
        using wr wf two by simp
      ultimately show ?thesis by blast
    next
      case left
      obtain lVal l' where l': "rangeGetImpl K C I U b e cb ?m l = Some (Inr (lVal, l'))"
        and vl: "\<forall>k. value_at K U cb ?m l' k = value_at K U cb ?m l k"
        and wl: "well_formed K cb ?m l'"
        and xl: "\<forall>f. associative_on C I f b e \<and> consistent_on C I f b e
               \<and> (\<forall>k. max cb b \<le> k \<and> k < min ?m e \<longrightarrow> value_at K U cb ?m l k = f k)
             \<longrightarrow> lVal = ref_rangeGet C I f (max cb b) (min ?m e)"
        using less.hyps [of ?m cb l] wf(1) no(1) left less.prems span
        by auto
      have mn: "min ?m e = min ce e"
        using left span by simp
      have "\<forall>f. associative_on C I f b e \<and> consistent_on C I f b e
               \<and> (\<forall>k. max cb b \<le> k \<and> k < min ce e \<longrightarrow> ?g k = f k)
             \<longrightarrow> lVal = ref_rangeGet C I f (max cb b) (min ce e)"
      proof (intro allI impI, elim conjE)
        fix f
        assume a: "associative_on C I f b e" "consistent_on C I f b e"
          and v: "\<forall>k. max cb b \<le> k \<and> k < min ce e \<longrightarrow> ?g k = f k"
        have "value_at K U cb ?m l k = f k" if "max cb b \<le> k \<and> k < min ?m e" for k
          using v [rule_format, of k] old [of k] that left span by simp
        then have "\<forall>k. max cb b \<le> k \<and> k < min ?m e \<longrightarrow> value_at K U cb ?m l k = f k"
          by blast
        then show "lVal = ref_rangeGet C I f (max cb b) (min ce e)"
          using xl a mn by auto
      qed
      moreover have "rangeGetImpl K C I U b e cb ce n = Some (Inr (lVal, Inner None l' r))"
        unfolding unfold using left l' by simp
      moreover have "\<forall>k. value_at K U cb ce (Inner None l' r) k = ?g k"
        using vl old by simp
      moreover have "well_formed K cb ce (Inner None l' r)"
        using wl wf two by simp
      ultimately show ?thesis by blast
    next
      case both
      obtain rVal r' where r': "rangeGetImpl K C I U b e ?m ce r = Some (Inr (rVal, r'))"
        and vr: "\<forall>k. value_at K U ?m ce r' k = value_at K U ?m ce r k"
        and wr: "well_formed K ?m ce r'"
        and xr: "\<forall>f. associative_on C I f b e \<and> consistent_on C I f b e
               \<and> (\<forall>k. max ?m b \<le> k \<and> k < min ce e \<longrightarrow> value_at K U ?m ce r k = f k)
             \<longrightarrow> rVal = ref_rangeGet C I f (max ?m b) (min ce e)"
        using less.hyps [of ce ?m r] wf(2) no(2) both less.prems span
        by auto
      obtain lVal l' where l': "rangeGetImpl K C I U b e cb ?m l = Some (Inr (lVal, l'))"
        and vl: "\<forall>k. value_at K U cb ?m l' k = value_at K U cb ?m l k"
        and wl: "well_formed K cb ?m l'"
        and xl: "\<forall>f. associative_on C I f b e \<and> consistent_on C I f b e
               \<and> (\<forall>k. max cb b \<le> k \<and> k < min ?m e \<longrightarrow> value_at K U cb ?m l k = f k)
             \<longrightarrow> lVal = ref_rangeGet C I f (max cb b) (min ?m e)"
        using less.hyps [of ?m cb l] wf(1) no(1) both less.prems span
        by auto
      have bounds: "max cb b < ?m" "?m < min ce e" "max ?m b = ?m" "min ?m e = ?m"
        "b \<le> max cb b" "min ce e \<le> e"
        using both span by auto
      have "rangeGetImpl K C I U b e cb ce n
          = Some (Inr (combineGet C lVal rVal (max cb b) ?m (min ce e), Inner None l' r'))"
        unfolding unfold using both r' l' by simp
      moreover have "\<forall>f. associative_on C I f b e \<and> consistent_on C I f b e
               \<and> (\<forall>k. max cb b \<le> k \<and> k < min ce e \<longrightarrow> ?g k = f k)
             \<longrightarrow> combineGet C lVal rVal (max cb b) ?m (min ce e)
                  = ref_rangeGet C I f (max cb b) (min ce e)"
      proof (intro allI impI, elim conjE)
        fix f
        assume a: "associative_on C I f b e" "consistent_on C I f b e"
          and v: "\<forall>k. max cb b \<le> k \<and> k < min ce e \<longrightarrow> ?g k = f k"
        have "value_at K U cb ?m l k = f k" if "max cb b \<le> k \<and> k < ?m" for k
          using v [rule_format, of k] old [of k] that both span by simp
        then have "\<forall>k. max cb b \<le> k \<and> k < ?m \<longrightarrow> value_at K U cb ?m l k = f k"
          by blast
        then have lv: "lVal = ref_rangeGet C I f (max cb b) ?m"
          using xl a bounds by auto
        have "value_at K U ?m ce r k = f k" if "?m \<le> k \<and> k < min ce e" for k
          using v [rule_format, of k] old [of k] that both span by simp
        then have "\<forall>k. ?m \<le> k \<and> k < min ce e \<longrightarrow> value_at K U ?m ce r k = f k"
          by blast
        then have rv: "rVal = ref_rangeGet C I f ?m (min ce e)"
          using xr a bounds by auto
        show "combineGet C lVal rVal (max cb b) ?m (min ce e)
            = ref_rangeGet C I f (max cb b) (min ce e)"
          unfolding lv rv combineGet_ref
          using ref_rangeGet_split [OF a(1) bounds(5) bounds(1) bounds(2) bounds(6)] by simp
      qed
      moreover have "\<forall>k. value_at K U cb ce (Inner None l' r') k = ?g k"
        using vl vr old by simp
      moreover have "well_formed K cb ce (Inner None l' r')"
        using wl wr two by simp
      ultimately show ?thesis by blast
    qed
  qed
qed

text \<open>
  \<^verbatim>\<open>rangeGetImpl_\<close> does create nodes: on the single leaf over \<open>[0, 4)\<close> the query
  \<open>[1, 3)\<close> splits the root and both of its children.
\<close>

lemma dst_rangeGet_creates_nodes:
  "dst_rangeGet (Signed 32) (ValueGetCombiner min) (ValueGetInitializer (\<lambda>v. v)) (+)
      (construct 0 4 (34::int) :: (int, int) DynamicSegmentTree) 1 3
    = Some (Inr (34, \<lparr>rootNode = Inner None (Inner None (Leaf 34) (Leaf 34))
                                             (Inner None (Leaf 34) (Leaf 34)),
                       tree_begin = 0, tree_end = 4\<rparr>))"
  by code_simp

subsection \<open>Sequences of calls\<close>

lemma well_formed_topology:
  "topology_of n = topology_of n' \<Longrightarrow> well_formed K cb ce n = well_formed K cb ce n'"
proof (induction n arbitrary: n' cb ce)
  case (Leaf v)
  then show ?case by (cases n') simp_all
next
  case (Inner p l r)
  then show ?case by (cases n') auto
qed

lemma dst_get_value:
  assumes "tree_begin t \<le> k" "k < tree_end t"
  shows "\<exists>t'. dst_get K U t k = Inr (value_at K U (tree_begin t) (tree_end t) (rootNode t) k, t')
    \<and> tree_begin t' = tree_begin t \<and> tree_end t' = tree_end t
    \<and> (\<forall>j. value_at K U (tree_begin t) (tree_end t) (rootNode t') j
          = value_at K U (tree_begin t) (tree_end t) (rootNode t) j)
    \<and> topology_of (rootNode t') = topology_of (rootNode t)"
  using assms getImpl_value [of K U k "tree_begin t" "tree_end t" "rootNode t"]
    getImpl_value_at [of K U "tree_begin t" "tree_end t" k "rootNode t"]
    getImpl_topology [of K U k "tree_begin t" "tree_end t" "rootNode t"]
  by (auto simp: dst_get_def split: prod.splits)

lemma represents_construct: "represents K U (construct bg en v0) bg en (\<lambda>k. v0)"
  by (simp add: represents_def construct_def)

text \<open>
  Where no sum of two bounds of the key range overflows, an in-contract call on a
  tree that represents a reference state returns, with no error, a tree that
  represents the state the reference is in after the call.
\<close>

lemma perform_represents:
  assumes "represents K U t bg en f" "in_contract bg en c" "no_overflow K bg en"
  shows "\<exists>t'. perform K C I U t c = Some (Inr t')
    \<and> represents K U t' bg en (ref_perform U f c)"
proof (cases c)
  case (SetCall b e v)
  show ?thesis
  proof (cases "e \<le> b")
    case True
    then show ?thesis
      using assms(1) SetCall by (auto simp: dst_set_def represents_def)
  next
    case False
    then have ov: "bg < e" "b < en" "b < e"
      using assms(2) SetCall by auto
    from setImpl_value_at [OF ov assms(3), of U "rootNode t" v] show ?thesis
      using assms(1) SetCall ov by (auto simp: dst_set_def represents_def)
  qed
next
  case (SetMoveCall b e v)
  show ?thesis
  proof (cases "e \<le> b")
    case True
    then show ?thesis
      using assms(1) SetMoveCall by (auto simp: dst_set_move_def represents_def)
  next
    case False
    then have ov: "bg < e" "b < en" "b < e"
      using assms(2) SetMoveCall by auto
    have "dst_set_move K U t b e v = dst_set K U t b e v"
      using assms(1,3) by (intro dst_set_move_eq) (simp add: represents_def)
    with setImpl_value_at [OF ov assms(3), of U "rootNode t" v] show ?thesis
      using assms(1) SetMoveCall ov by (auto simp: dst_set_def represents_def)
  qed
next
  case (UpdateCall b e a)
  show ?thesis
  proof (cases "e \<le> b")
    case True
    then show ?thesis
      using assms(1) UpdateCall
      by (auto simp: dst_update_def represents_def updateImpl_empty_range)
  next
    case False
    then have ov: "bg < e" "b < en" "b < e"
      using assms(2) UpdateCall by auto
    from updateImpl_value_at [OF ov assms(3), of U "rootNode t" a] show ?thesis
      using assms(1) UpdateCall ov by (auto simp: dst_update_def represents_def)
  qed
next
  case (GetCall k)
  then have "tree_begin t \<le> k" "k < tree_end t"
    using assms by (auto simp: represents_def)
  from dst_get_value [OF this, of K U] obtain t' where
    "dst_get K U t k = Inr (value_at K U (tree_begin t) (tree_end t) (rootNode t) k, t')"
    "tree_begin t' = tree_begin t" "tree_end t' = tree_end t"
    "\<forall>j. value_at K U (tree_begin t) (tree_end t) (rootNode t') j
          = value_at K U (tree_begin t) (tree_end t) (rootNode t) j"
    "topology_of (rootNode t') = topology_of (rootNode t)"
    by blast
  then show ?thesis
    using assms(1) GetCall well_formed_topology [of "rootNode t'" "rootNode t" K bg en]
    by (auto simp: represents_def)
next
  case (RangeGetCall b e)
  then have q: "bg \<le> b" "b < e" "e \<le> en"
    using assms(2) by auto
  have r: "well_formed K bg en (rootNode t)" "tree_begin t = bg" "tree_end t = en"
    using assms(1) by (auto simp: represents_def)
  have "bg < e" "b < en" "bg < en"
    using q by auto
  from rangeGetImpl_correct [OF r(1) assms(3) q(2) this, of C I U]
  obtain x n' where "rangeGetImpl K C I U b e bg en (rootNode t) = Some (Inr (x, n'))"
    "\<forall>k. value_at K U bg en n' k = value_at K U bg en (rootNode t) k" "well_formed K bg en n'"
    by auto
  then show ?thesis
    using assms(1) RangeGetCall by (auto simp: represents_def dst_rangeGet_def)
qed

lemma run_represents:
  assumes "list_all (in_contract bg en) calls" "no_overflow K bg en" "represents K U t bg en f"
  shows "\<exists>t'. run K C I U t calls = Some (Inr t')
    \<and> represents K U t' bg en (foldl (ref_perform U) f calls)"
  using assms
proof (induction calls arbitrary: t f)
  case Nil
  then show ?case by simp
next
  case (Cons c cs)
  then obtain t1 where t1: "perform K C I U t c = Some (Inr t1)"
    "represents K U t1 bg en (ref_perform U f c)"
    using perform_represents [of K U t bg en f c C I] by auto
  then show ?case
    using Cons.IH [of t1 "ref_perform U f c"] Cons.prems by simp
qed

subsection \<open>Midpoints that overflow\<close>

text \<open>
  For \<^verbatim>\<open>KeyT = unsigned\<close> (32 bits) and a tree over \<open>[4000000000, 4294967295)\<close> the sum
  \<^verbatim>\<open>currBegin + currEnd\<close> wraps at the root: the midpoint is \<open>1999999999\<close>, below
  the span. From there on the descent for the key \<open>4000000000\<close> goes to the right
  child with a \<^verbatim>\<open>currBegin\<close> that stays at most \<open>2147483647\<close>, and never ends.
\<close>

lemma mid_wrapped:
  assumes "0 \<le> cb" "cb \<le> 2147483647"
  shows "0 \<le> mid (Unsigned 32) cb 4294967295 \<and> mid (Unsigned 32) cb 4294967295 \<le> 2147483647"
  using assms by (auto simp: mid_def signed_divide_int_def sgn_if abs_if)

lemma mid_wrapped_root: "mid (Unsigned 32) 4000000000 4294967295 = 1999999999"
  by (simp add: mid_def signed_divide_int_def)

lemma setImpl_wrapped_aux:
  assumes "setImpl K U b e cb ce n v = Some y"
  shows "K = Unsigned 32 \<and> b = 4000000000 \<and> e = 4000000001 \<and> ce = 4294967295
    \<longrightarrow> \<not> (0 \<le> cb \<and> cb \<le> 2147483647)"
proof (rule setImpl.raw_induct [where P = "\<lambda>K U b e cb ce n v y.
    K = Unsigned 32 \<and> b = 4000000000 \<and> e = 4000000001 \<and> ce = 4294967295
      \<longrightarrow> \<not> (0 \<le> cb \<and> cb \<le> 2147483647)", OF _ assms], goal_cases)
  case (1 f K U b e cb ce n v y)
  show ?case
  proof (intro impI notI)
    assume c: "K = Unsigned 32 \<and> b = 4000000000 \<and> e = 4000000001 \<and> ce = 4294967295"
      and inv: "0 \<le> cb \<and> cb \<le> 2147483647"
    let ?m = "mid (Unsigned 32) cb 4294967295"
    have m: "0 \<le> ?m \<and> ?m \<le> 2147483647"
      using inv by (simp add: mid_wrapped)
    have "\<exists>n' y'. f (Unsigned 32) U 4000000000 4000000001 ?m 4294967295 n' v = Some y'"
      using 1(2) c inv m by (auto simp: Let_def split: if_splits Option.bind_splits)
    then show False
      using 1(1) m by blast
  qed
qed

lemma setImpl_wrapped:
  "setImpl (Unsigned 32) U 4000000000 4000000001 4000000000 4294967295 n v = None"
proof (rule ccontr)
  assume "setImpl (Unsigned 32) U 4000000000 4000000001 4000000000 4294967295 n v \<noteq> None"
  then obtain y where
    y: "setImpl (Unsigned 32) U 4000000000 4000000001 4000000000 4294967295 n v = Some y"
    by auto
  have "\<exists>n' y'. setImpl (Unsigned 32) U 4000000000 4000000001 1999999999 4294967295 n' v
      = Some y'"
    using y
    by (subst (asm) setImpl.simps)
       (auto simp: Let_def mid_wrapped_root split: if_splits Option.bind_splits)
  then show False
    using setImpl_wrapped_aux by fastforce
qed



text \<open>
  The same for \<^verbatim>\<open>_updateImpl\<close> of the first header and the empty range at the key
  \<open>4000000001\<close>, which lies inside the span and is never outside a span that ends
  with the tree.
\<close>

lemma legacy_updateImpl_wrapped_aux:
  assumes "legacy_updateImpl K U b e cb ce n a = Some y"
  shows "K = Unsigned 32 \<and> b = 4000000001 \<and> e = 4000000001 \<and> ce = 4294967295
    \<longrightarrow> \<not> (0 \<le> cb \<and> cb \<le> 2147483647)"
proof (rule legacy_updateImpl.raw_induct [where P = "\<lambda>K U b e cb ce n a y.
    K = Unsigned 32 \<and> b = 4000000001 \<and> e = 4000000001 \<and> ce = 4294967295
      \<longrightarrow> \<not> (0 \<le> cb \<and> cb \<le> 2147483647)", OF _ assms], goal_cases)
  case (1 f K U b e cb ce n a y)
  show ?case
  proof (intro impI notI)
    assume c: "K = Unsigned 32 \<and> b = 4000000001 \<and> e = 4000000001 \<and> ce = 4294967295"
      and inv: "0 \<le> cb \<and> cb \<le> 2147483647"
    let ?m = "mid (Unsigned 32) cb 4294967295"
    have m: "0 \<le> ?m \<and> ?m \<le> 2147483647"
      using inv by (simp add: mid_wrapped)
    have "\<exists>n' y'. f (Unsigned 32) U 4000000001 4000000001 ?m 4294967295 n' a = Some y'"
      using 1(2) c inv m by (auto simp: Let_def split: if_splits Option.bind_splits)
    then show False
      using 1(1) m by blast
  qed
qed

lemma legacy_updateImpl_wrapped:
  "legacy_updateImpl (Unsigned 32) U 4000000001 4000000001 4000000000 4294967295 n a = None"
proof (rule ccontr)
  assume "legacy_updateImpl (Unsigned 32) U 4000000001 4000000001 4000000000 4294967295 n a
    \<noteq> None"
  then obtain y where
    y: "legacy_updateImpl (Unsigned 32) U 4000000001 4000000001 4000000000 4294967295 n a
      = Some y"
    by auto
  have "\<exists>n' y'. legacy_updateImpl (Unsigned 32) U 4000000001 4000000001 1999999999 4294967295
      n' a = Some y'"
    using y
    by (subst (asm) legacy_updateImpl.simps)
       (auto simp: Let_def mid_wrapped_root split: if_splits Option.bind_splits)
  then show False
    using legacy_updateImpl_wrapped_aux by fastforce
qed

subsection \<open>The recursions of the first header\<close>

lemma siftDown_opened: "siftDown U n = opened U n"
  by (simp add: siftDown_def opened_def optionalSiftNodeUpdate_def)

lemma legacy_getImpl_eq: "legacy_getImpl K U k cb ce n = getImpl K U k cb ce n"
proof (induction K U k cb ce n rule: getImpl.induct)
  case (1 K U k cb ce n)
  show ?case
  proof (cases n)
    case (Leaf v)
    then show ?thesis by (simp add: getImpl.simps legacy_getImpl.simps)
  next
    case (Inner p l r)
    with 1 show ?thesis
      by (subst getImpl.simps, subst legacy_getImpl.simps)
         (simp add: siftDown_def optionalSiftNodeUpdate_def Let_def)
  qed
qed

lemma legacy_get_in_range:
  assumes "tree_begin t \<le> k" "k < tree_end t"
  shows "fst (legacy_get K U t k) = value_at K U (tree_begin t) (tree_end t) (rootNode t) k"
  using assms getImpl_value [of K U k "tree_begin t" "tree_end t" "rootNode t"]
  by (auto simp: legacy_get_def legacy_getImpl_eq split: prod.splits)

lemma legacy_get_outside:
  assumes "k \<ge> tree_end t \<or> k < tree_begin t"
  shows "legacy_get K U t k = (0, t)"
  using assms by (simp add: legacy_get_def)

lemma same_on_refl: "same_on K U cb ce n n"
  by (simp add: same_on_def)

lemma same_on_empty: "m \<le> cb \<Longrightarrow> same_on K U cb m x y"
  by (auto simp: same_on_def)

lemma same_on_Inner:
  assumes "same_on K U cb (mid K cb ce) l1 l2" "same_on K U (mid K cb ce) ce r1 r2"
  shows "same_on K U cb ce (Inner p l1 r1) (Inner p l2 r2)"
  using assms unfolding same_on_def by (auto simp: Let_def split: option.splits)

lemma same_on_opened_left: "same_on K U cb ce n (opened U n)"
  by (simp add: same_on_def value_at_opened)

lemma legacy_setImpl_outside:
  "b \<ge> ce \<or> cb \<ge> e \<Longrightarrow> legacy_setImpl K U b e cb ce n v = Some n"
  by (simp add: legacy_setImpl.simps)

lemma legacy_setImpl_cover:
  "b < ce \<Longrightarrow> cb < e \<Longrightarrow> ce \<le> e \<Longrightarrow> b \<le> cb \<Longrightarrow>
   legacy_setImpl K U b e cb ce n v = Some (setValue v n)"
  by (simp add: legacy_setImpl.simps)

lemma legacy_setImpl_descend:
  assumes "cb < e" "b < ce" "\<not> (ce \<le> e \<and> b \<le> cb)" "opened U n = Inner p l r"
  shows "legacy_setImpl K U b e cb ce n v =
     Option.bind
       (if mid K cb ce \<ge> cb + 1 then legacy_setImpl K U b e cb (mid K cb ce) l v else Some l)
       (\<lambda>l'. Option.bind (legacy_setImpl K U b e (mid K cb ce) ce r v)
                (\<lambda>r'. Some (Inner p l' r')))"
  using assms by (subst legacy_setImpl.simps) (auto simp: siftDown_opened Let_def)

lemma legacy_setImpl_corrected_outside:
  "b \<ge> ce \<or> cb \<ge> e \<Longrightarrow> legacy_setImpl_corrected K U b e cb ce n v = Some n"
  by (simp add: legacy_setImpl_corrected.simps)

lemma legacy_setImpl_corrected_cover:
  "b < ce \<Longrightarrow> cb < e \<Longrightarrow> ce \<le> e \<Longrightarrow> b \<le> cb \<Longrightarrow>
   legacy_setImpl_corrected K U b e cb ce n v = Some (setValue v n)"
  by (simp add: legacy_setImpl_corrected.simps)

lemma legacy_setImpl_corrected_descend:
  assumes "cb < e" "b < ce" "\<not> (ce \<le> e \<and> b \<le> cb)" "opened U n = Inner p l r"
  shows "legacy_setImpl_corrected K U b e cb ce n v =
     Option.bind
       (if mid K cb ce > b then legacy_setImpl_corrected K U b e cb (mid K cb ce) l v
        else Some l)
       (\<lambda>l'. Option.bind
                (if mid K cb ce < e then legacy_setImpl_corrected K U b e (mid K cb ce) ce r v
                 else Some r)
                (\<lambda>r'. Some (Inner p l' r')))"
  using assms by (subst legacy_setImpl_corrected.simps) (auto simp: siftDown_opened Let_def)

text \<open>
  The two recursions, whatever the midpoints are. Past the first test the written
  right guard holds, and a right child that the guard \<open>mid < end\<close> skips is one on
  which the call returns at its first test. The written left guard differs from
  \<open>mid > begin\<close> in two cases: where only the written guard holds the call returns at
  its first test; where only \<open>mid > begin\<close> holds the midpoint is not above
  \<^verbatim>\<open>currBegin\<close>, the call sets the left child, which it covers, and no key of the
  span is looked up in that child. So when one recursion returns, the other returns
  too, and the two nodes hold the same value for every key of the span.
\<close>

lemma legacy_setImpl_to_corrected:
  assumes "legacy_setImpl K U b e cb ce n v = Some n1"
  shows "\<exists>n2. legacy_setImpl_corrected K U b e cb ce n v = Some n2 \<and> same_on K U cb ce n1 n2"
proof (rule legacy_setImpl.raw_induct [where P = "\<lambda>K U b e cb ce n v n1.
    \<exists>n2. legacy_setImpl_corrected K U b e cb ce n v = Some n2 \<and> same_on K U cb ce n1 n2",
    OF _ assms], goal_cases)
  case (1 f K U b e cb ce n v n1)
  note IH = 1(1) and body = 1(2)
  consider (outside) "b \<ge> ce \<or> cb \<ge> e"
    | (cover) "b < ce" "cb < e" "ce \<le> e \<and> b \<le> cb"
    | (descend) "cb < e" "b < ce" "\<not> (ce \<le> e \<and> b \<le> cb)"
    by linarith
  then show ?case
  proof cases
    case outside
    then have "n1 = n"
      using body by auto
    then show ?thesis
      using outside by (simp add: legacy_setImpl_corrected_outside same_on_refl)
  next
    case cover
    then have "n1 = setValue v n"
      using body by auto
    then show ?thesis
      using cover by (simp add: legacy_setImpl_corrected_cover same_on_refl)
  next
    case descend
    obtain l r where op: "opened U n = Inner None l r"
      by (rule opened_cases)
    let ?m = "mid K cb ce"
    obtain l1 r1 where L: "(if ?m \<ge> cb + 1 then f K U b e cb ?m l v else Some l) = Some l1"
      and R: "f K U b e ?m ce r v = Some r1"
      and n1: "n1 = Inner None l1 r1"
      using body descend op by (auto simp: siftDown_opened Let_def bind_eq_Some_conv cong: if_cong)
    have "\<exists>l2. (if ?m > b then legacy_setImpl_corrected K U b e cb ?m l v else Some l) = Some l2
        \<and> same_on K U cb ?m l1 l2"
    proof (cases "?m \<ge> cb + 1")
      case True
      then obtain l2 where c: "legacy_setImpl_corrected K U b e cb ?m l v = Some l2"
        "same_on K U cb ?m l1 l2"
        using IH [of K U b e cb ?m l v l1] L by auto
      show ?thesis
      proof (cases "?m > b")
        case True
        then show ?thesis using c by simp
      next
        case False
        then have "legacy_setImpl_corrected K U b e cb ?m l v = Some l"
          by (simp add: legacy_setImpl_corrected_outside)
        then show ?thesis using c False by simp
      qed
    next
      case False
      show ?thesis
      proof (cases "?m > b")
        case True
        then have "legacy_setImpl_corrected K U b e cb ?m l v = Some (setValue v l)"
          using False descend by (simp add: legacy_setImpl_corrected_cover)
        then show ?thesis using True False by (simp add: same_on_empty)
      next
        case b: False
        then show ?thesis using False by (simp add: same_on_empty)
      qed
    qed
    then obtain l2 where
      l2: "(if ?m > b then legacy_setImpl_corrected K U b e cb ?m l v else Some l) = Some l2"
      "same_on K U cb ?m l1 l2"
      by blast
    obtain r2' where c: "legacy_setImpl_corrected K U b e ?m ce r v = Some r2'"
      "same_on K U ?m ce r1 r2'"
      using IH [of K U b e ?m ce r v r1] R by auto
    have "\<exists>r2. (if ?m < e then legacy_setImpl_corrected K U b e ?m ce r v else Some r) = Some r2
        \<and> same_on K U ?m ce r1 r2"
    proof (cases "?m < e")
      case True
      then show ?thesis using c by simp
    next
      case False
      then have "legacy_setImpl_corrected K U b e ?m ce r v = Some r"
        by (simp add: legacy_setImpl_corrected_outside)
      then show ?thesis using c False by simp
    qed
    then obtain r2 where
      r2: "(if ?m < e then legacy_setImpl_corrected K U b e ?m ce r v else Some r) = Some r2"
      "same_on K U ?m ce r1 r2"
      by blast
    have "legacy_setImpl_corrected K U b e cb ce n v = Some (Inner None l2 r2)"
      unfolding legacy_setImpl_corrected_descend [OF descend op] using l2(1) r2(1) by simp
    then show ?thesis
      using n1 l2(2) r2(2) by (simp add: same_on_Inner)
  qed
qed

lemma legacy_setImpl_from_corrected:
  assumes "legacy_setImpl_corrected K U b e cb ce n v = Some n2"
  shows "\<exists>n1. legacy_setImpl K U b e cb ce n v = Some n1 \<and> same_on K U cb ce n1 n2"
proof (rule legacy_setImpl_corrected.raw_induct [where P = "\<lambda>K U b e cb ce n v n2.
    \<exists>n1. legacy_setImpl K U b e cb ce n v = Some n1 \<and> same_on K U cb ce n1 n2",
    OF _ assms], goal_cases)
  case (1 f K U b e cb ce n v n2)
  note IH = 1(1) and body = 1(2)
  consider (outside) "b \<ge> ce \<or> cb \<ge> e"
    | (cover) "b < ce" "cb < e" "ce \<le> e \<and> b \<le> cb"
    | (descend) "cb < e" "b < ce" "\<not> (ce \<le> e \<and> b \<le> cb)"
    by linarith
  then show ?case
  proof cases
    case outside
    then have "n2 = n"
      using body by auto
    then show ?thesis
      using outside by (simp add: legacy_setImpl_outside same_on_refl)
  next
    case cover
    then have "n2 = setValue v n"
      using body by auto
    then show ?thesis
      using cover by (simp add: legacy_setImpl_cover same_on_refl)
  next
    case descend
    obtain l r where op: "opened U n = Inner None l r"
      by (rule opened_cases)
    let ?m = "mid K cb ce"
    obtain l2 r2 where L: "(if ?m > b then f K U b e cb ?m l v else Some l) = Some l2"
      and R: "(if ?m < e then f K U b e ?m ce r v else Some r) = Some r2"
      and n2: "n2 = Inner None l2 r2"
      using body descend op by (auto simp: siftDown_opened Let_def bind_eq_Some_conv cong: if_cong)
    have "\<exists>l1. (if ?m \<ge> cb + 1 then legacy_setImpl K U b e cb ?m l v else Some l) = Some l1
        \<and> same_on K U cb ?m l1 l2"
    proof (cases "?m \<ge> cb + 1")
      case yes: True
      show ?thesis
      proof (cases "?m > b")
        case True
        then show ?thesis
          using IH [of K U b e cb ?m l v l2] L yes by auto
      next
        case False
        then have "legacy_setImpl K U b e cb ?m l v = Some l" "l2 = l"
          using L by (simp_all add: legacy_setImpl_outside)
        then show ?thesis using yes by (simp add: same_on_refl)
      qed
    next
      case False
      then show ?thesis by (simp add: same_on_empty)
    qed
    then obtain l1 where
      l1: "(if ?m \<ge> cb + 1 then legacy_setImpl K U b e cb ?m l v else Some l) = Some l1"
      "same_on K U cb ?m l1 l2"
      by blast
    have "\<exists>r1. legacy_setImpl K U b e ?m ce r v = Some r1 \<and> same_on K U ?m ce r1 r2"
    proof (cases "?m < e")
      case True
      then show ?thesis
        using IH [of K U b e ?m ce r v r2] R by auto
    next
      case False
      then have "legacy_setImpl K U b e ?m ce r v = Some r" "r2 = r"
        using R by (simp_all add: legacy_setImpl_outside)
      then show ?thesis by (simp add: same_on_refl)
    qed
    then obtain r1 where
      r1: "legacy_setImpl K U b e ?m ce r v = Some r1" "same_on K U ?m ce r1 r2"
      by blast
    have "legacy_setImpl K U b e cb ce n v = Some (Inner None l1 r1)"
      unfolding legacy_setImpl_descend [OF descend op] using l1(1) r1(1) by simp
    then show ?thesis
      using n2 l1(2) r1(2) by (simp add: same_on_Inner)
  qed
qed

lemma legacy_setImpl_guards:
  "(legacy_setImpl K U b e cb ce n v = None \<and> legacy_setImpl_corrected K U b e cb ce n v = None)
   \<or> (\<exists>n1 n2. legacy_setImpl K U b e cb ce n v = Some n1
         \<and> legacy_setImpl_corrected K U b e cb ce n v = Some n2 \<and> same_on K U cb ce n1 n2)"
proof (cases "legacy_setImpl K U b e cb ce n v")
  case None
  then show ?thesis
    using legacy_setImpl_from_corrected [of K U b e cb ce n v]
    by (cases "legacy_setImpl_corrected K U b e cb ce n v") auto
next
  case (Some n1)
  then show ?thesis
    using legacy_setImpl_to_corrected [of K U b e cb ce n v n1] by auto
qed

subsection \<open>\<^verbatim>\<open>_setImpl\<close> and \<^verbatim>\<open>_updateImpl\<close> where nothing overflows\<close>

lemma legacy_updateImpl_outside:
  "b \<ge> ce \<or> cb \<ge> e \<Longrightarrow> legacy_updateImpl K U b e cb ce n a = Some n"
  by (simp add: legacy_updateImpl.simps)

lemma legacy_updateImpl_cover:
  "b < ce \<Longrightarrow> cb < e \<Longrightarrow> ce \<le> e \<Longrightarrow> b \<le> cb \<Longrightarrow>
   legacy_updateImpl K U b e cb ce n a = Some (update U a n)"
  by (simp add: legacy_updateImpl.simps)

lemma legacy_updateImpl_descend:
  assumes "cb < e" "b < ce" "\<not> (ce \<le> e \<and> b \<le> cb)" "opened U n = Inner p l r"
  shows "legacy_updateImpl K U b e cb ce n a =
     Option.bind
       (if mid K cb ce \<ge> cb + 1 then legacy_updateImpl K U b e cb (mid K cb ce) l a
        else Some l)
       (\<lambda>l'. Option.bind
                (if ce \<ge> mid K cb ce + 1 then legacy_updateImpl K U b e (mid K cb ce) ce r a
                 else Some r)
                (\<lambda>r'. Some (Inner p l' r')))"
  using assms by (subst legacy_updateImpl.simps) (auto simp: siftDown_opened Let_def)

text \<open>
  Inside a span where no sum overflows, \<^verbatim>\<open>_setImpl\<close> and \<^verbatim>\<open>_updateImpl\<close> return,
  for every range, also an empty one; the node they leave holds the new value for the
  keys of \<open>[b, e)\<close> and the old value for the other keys of the span.
\<close>

lemma legacy_setImpl_value_at:
  assumes "no_overflow K cb ce"
  shows "\<exists>n'. legacy_setImpl K U b e cb ce n v = Some n' \<and>
     (\<forall>k. cb \<le> k \<and> k < ce \<longrightarrow>
        value_at K U cb ce n' k = (if b \<le> k \<and> k < e then v else value_at K U cb ce n k)) \<and>
     (well_formed K cb ce n \<longrightarrow> well_formed K cb ce n')"
  using assms
proof (induction "nat (ce - cb)" arbitrary: cb ce n rule: less_induct)
  case less
  consider (outside) "b \<ge> ce \<or> cb \<ge> e"
    | (cover) "b < ce" "cb < e" "ce \<le> e \<and> b \<le> cb"
    | (descend) "cb < e" "b < ce" "\<not> (ce \<le> e \<and> b \<le> cb)"
    by linarith
  then show ?case
  proof cases
    case outside
    then show ?thesis
      by (auto simp: legacy_setImpl_outside)
  next
    case cover
    then show ?thesis
      by (cases n) (auto simp: legacy_setImpl_cover)
  next
    case descend
    obtain l r where op: "opened U n = Inner None l r"
      by (rule opened_cases)
    let ?m = "mid K cb ce"
    have two: "cb + 2 \<le> ce"
      using overlap_not_covered_span [of cb e b ce] descend by auto
    then have span: "cb < ?m" "?m < ce"
      using mid_between [OF less.prems] by auto
    have no: "no_overflow K cb ?m" "no_overflow K ?m ce"
      using no_overflow_span [OF less.prems] span by auto
    have old: "value_at K U cb ce n k =
        (if k \<ge> ?m then value_at K U ?m ce r k else value_at K U cb ?m l k)" for k
      using value_at_opened [of K U cb ce n k] op by simp
    have wf: "well_formed K cb ?m l \<and> well_formed K ?m ce r" if "well_formed K cb ce n"
      using well_formed_opened [OF that op] .
    obtain l' where l': "legacy_setImpl K U b e cb ?m l v = Some l'"
      and vl: "\<forall>k. cb \<le> k \<and> k < ?m \<longrightarrow>
        value_at K U cb ?m l' k = (if b \<le> k \<and> k < e then v else value_at K U cb ?m l k)"
      and wl: "well_formed K cb ?m l \<longrightarrow> well_formed K cb ?m l'"
      using less.hyps [of ?m cb l] span no by auto
    obtain r' where r': "legacy_setImpl K U b e ?m ce r v = Some r'"
      and vr: "\<forall>k. ?m \<le> k \<and> k < ce \<longrightarrow>
        value_at K U ?m ce r' k = (if b \<le> k \<and> k < e then v else value_at K U ?m ce r k)"
      and wr: "well_formed K ?m ce r \<longrightarrow> well_formed K ?m ce r'"
      using less.hyps [of ce ?m r] span no by auto
    have res: "legacy_setImpl K U b e cb ce n v = Some (Inner None l' r')"
      using legacy_setImpl_descend [OF descend op, of K v] l' r' span by simp
    have "\<forall>k. cb \<le> k \<and> k < ce \<longrightarrow> value_at K U cb ce (Inner None l' r') k
        = (if b \<le> k \<and> k < e then v else value_at K U cb ce n k)"
      using vl vr old by (auto simp: Let_def)
    moreover have "well_formed K cb ce n \<longrightarrow> well_formed K cb ce (Inner None l' r')"
      using wf wl wr two by simp
    ultimately show ?thesis
      unfolding res by blast
  qed
qed

lemma legacy_updateImpl_value_at:
  assumes "no_overflow K cb ce"
  shows "\<exists>n'. legacy_updateImpl K U b e cb ce n a = Some n' \<and>
     (\<forall>k. cb \<le> k \<and> k < ce \<longrightarrow>
        value_at K U cb ce n' k
          = (if b \<le> k \<and> k < e then U (value_at K U cb ce n k) a else value_at K U cb ce n k)) \<and>
     (well_formed K cb ce n \<longrightarrow> well_formed K cb ce n')"
  using assms
proof (induction "nat (ce - cb)" arbitrary: cb ce n rule: less_induct)
  case less
  consider (outside) "b \<ge> ce \<or> cb \<ge> e"
    | (cover) "b < ce" "cb < e" "ce \<le> e \<and> b \<le> cb"
    | (descend) "cb < e" "b < ce" "\<not> (ce \<le> e \<and> b \<le> cb)"
    by linarith
  then show ?case
  proof cases
    case outside
    then show ?thesis
      by (auto simp: legacy_updateImpl_outside)
  next
    case cover
    then show ?thesis
      by (auto simp: legacy_updateImpl_cover value_at_update well_formed_update)
  next
    case descend
    obtain l r where op: "opened U n = Inner None l r"
      by (rule opened_cases)
    let ?m = "mid K cb ce"
    have two: "cb + 2 \<le> ce"
      using overlap_not_covered_span [of cb e b ce] descend by auto
    then have span: "cb < ?m" "?m < ce"
      using mid_between [OF less.prems] by auto
    have no: "no_overflow K cb ?m" "no_overflow K ?m ce"
      using no_overflow_span [OF less.prems] span by auto
    have old: "value_at K U cb ce n k =
        (if k \<ge> ?m then value_at K U ?m ce r k else value_at K U cb ?m l k)" for k
      using value_at_opened [of K U cb ce n k] op by simp
    have wf: "well_formed K cb ?m l \<and> well_formed K ?m ce r" if "well_formed K cb ce n"
      using well_formed_opened [OF that op] .
    obtain l' where l': "legacy_updateImpl K U b e cb ?m l a = Some l'"
      and vl: "\<forall>k. cb \<le> k \<and> k < ?m \<longrightarrow>
        value_at K U cb ?m l' k
          = (if b \<le> k \<and> k < e then U (value_at K U cb ?m l k) a else value_at K U cb ?m l k)"
      and wl: "well_formed K cb ?m l \<longrightarrow> well_formed K cb ?m l'"
      using less.hyps [of ?m cb l] span no by auto
    obtain r' where r': "legacy_updateImpl K U b e ?m ce r a = Some r'"
      and vr: "\<forall>k. ?m \<le> k \<and> k < ce \<longrightarrow>
        value_at K U ?m ce r' k
          = (if b \<le> k \<and> k < e then U (value_at K U ?m ce r k) a else value_at K U ?m ce r k)"
      and wr: "well_formed K ?m ce r \<longrightarrow> well_formed K ?m ce r'"
      using less.hyps [of ce ?m r] span no by auto
    have res: "legacy_updateImpl K U b e cb ce n a = Some (Inner None l' r')"
      using legacy_updateImpl_descend [OF descend op, of K a] l' r' span by simp
    have "\<forall>k. cb \<le> k \<and> k < ce \<longrightarrow> value_at K U cb ce (Inner None l' r') k
        = (if b \<le> k \<and> k < e then U (value_at K U cb ce n k) a else value_at K U cb ce n k)"
      using vl vr old by (auto simp: Let_def)
    moreover have "well_formed K cb ce n \<longrightarrow> well_formed K cb ce (Inner None l' r')"
      using wf wl wr two by simp
    ultimately show ?thesis
      unfolding res by blast
  qed
qed

text \<open>
  With an empty range strictly inside the key range, \<^verbatim>\<open>_updateImpl\<close> changes no
  value but does create nodes on its way down.
\<close>

lemma legacy_update_empty_range_splits:
  "legacy_update (Signed 32) (+) (construct 0 4 (1::int) :: (int, int) DynamicSegmentTree) 3 3 5
    = Some \<lparr>rootNode = Inner None (Leaf 1) (Inner None (Leaf 1) (Leaf 1)),
            tree_begin = 0, tree_end = 4\<rparr>"
  by code_simp

subsection \<open>\<^verbatim>\<open>_rangeGetImpl\<close> and sequences of calls of the first header\<close>

text \<open>
  \<^verbatim>\<open>_rangeGetImpl\<close> returns the same value on two well-formed trees that hold the
  same values, however their leaves are split, when the combiner and the initializer
  are consistent; and the calls of the first header keep trees well formed and change
  the values key by key. So two such trees answer every sequence of calls alike.
\<close>

lemma fits_length: "fits K y \<Longrightarrow> 0 \<le> x \<Longrightarrow> x \<le> y \<Longrightarrow> fits K x"
proof (cases K)
  case (Unsigned w)
  then show ?thesis if "fits K y" "0 \<le> x" "x \<le> y" using that by simp
next
  case (Signed w)
  have "- (2 ^ (w - 1)) \<le> (0::int)"
    by simp
  then show ?thesis if "fits K y" "0 \<le> x" "x \<le> y" using that Signed by simp
qed

lemma legacy_rangeGet_value_outside:
  "b \<ge> ce \<or> cb \<ge> e \<Longrightarrow> legacy_rangeGet_value K C I U b e cb ce n = Some (Inl assertion_failed)"
  by (simp add: legacy_rangeGet_value_def legacy_rangeGetImpl.simps)

lemma legacy_rangeGetImpl_leaf:
  "b < ce \<Longrightarrow> cb < e \<Longrightarrow> ce \<le> e \<Longrightarrow> b \<le> cb \<Longrightarrow>
   legacy_rangeGetImpl K C I U b e cb ce (Leaf v)
     = Some (Inr (legacy_segInitializer I v (wrap K (ce - cb)), Leaf v))"
  by (simp add: legacy_rangeGetImpl.simps)

lemma legacy_rangeGet_value_leaf:
  "b < ce \<Longrightarrow> cb < e \<Longrightarrow> ce \<le> e \<Longrightarrow> b \<le> cb \<Longrightarrow>
   legacy_rangeGet_value K C I U b e cb ce (Leaf v)
     = Some (Inr (legacy_segInitializer I v (wrap K (ce - cb))))"
  by (simp add: legacy_rangeGet_value_def legacy_rangeGetImpl_leaf)

lemma legacy_rangeGetImpl_descend_node:
  assumes "b < ce" "cb < e" "\<not> (ce \<le> e \<and> b \<le> cb \<and> isLeaf n)" "opened U n = Inner p l r"
  shows "legacy_rangeGetImpl K C I U b e cb ce n =
     (if b \<ge> mid K cb ce
      then Option.bind (legacy_rangeGetImpl K C I U b e (mid K cb ce) ce r)
             (\<lambda>right. case right of
                Inl err \<Rightarrow> Some (Inl err)
              | Inr (x, r') \<Rightarrow> Some (Inr (x, Inner p l r')))
      else if e \<le> mid K cb ce
      then Option.bind (legacy_rangeGetImpl K C I U b e cb (mid K cb ce) l)
             (\<lambda>left. case left of
                Inl err \<Rightarrow> Some (Inl err)
              | Inr (x, l') \<Rightarrow> Some (Inr (x, Inner p l' r)))
      else Option.bind (legacy_rangeGetImpl K C I U b e cb (mid K cb ce) l)
             (\<lambda>left. case left of
                Inl err \<Rightarrow> Some (Inl err)
              | Inr (lVal, l') \<Rightarrow>
                  Option.bind (legacy_rangeGetImpl K C I U b e (mid K cb ce) ce r)
                    (\<lambda>right. case right of
                       Inl err \<Rightarrow> Some (Inl err)
                     | Inr (rVal, r') \<Rightarrow>
                         Some (Inr (legacy_segCombiner C lVal rVal
                                      (wrap K (mid K cb ce - b)) (wrap K (e - mid K cb ce)),
                                    Inner p l' r')))))"
  using assms
  by (subst legacy_rangeGetImpl.simps) (auto simp: siftDown_opened Let_def)

lemma legacy_rangeGet_value_descend:
  assumes "b < ce" "cb < e" "\<not> (ce \<le> e \<and> b \<le> cb \<and> isLeaf n)" "opened U n = Inner p l r"
  shows "legacy_rangeGet_value K C I U b e cb ce n =
     (if b \<ge> mid K cb ce then legacy_rangeGet_value K C I U b e (mid K cb ce) ce r
      else if e \<le> mid K cb ce then legacy_rangeGet_value K C I U b e cb (mid K cb ce) l
      else Option.bind (legacy_rangeGet_value K C I U b e cb (mid K cb ce) l)
             (\<lambda>left. case left of
                Inl err \<Rightarrow> Some (Inl err)
              | Inr lVal \<Rightarrow>
                  Option.bind (legacy_rangeGet_value K C I U b e (mid K cb ce) ce r)
                    (\<lambda>right. case right of
                       Inl err \<Rightarrow> Some (Inl err)
                     | Inr rVal \<Rightarrow>
                         Some (Inr (legacy_segCombiner C lVal rVal
                                      (wrap K (mid K cb ce - b)) (wrap K (e - mid K cb ce)))))))"
  unfolding legacy_rangeGet_value_def legacy_rangeGetImpl_descend_node [OF assms]
  by (auto split: option.splits sum.splits prod.splits Option.bind_splits)

lemma legacy_rangeGet_value_uniform:
  assumes "legacy_consistent C I"
  shows "well_formed K cb ce n \<Longrightarrow> no_overflow K cb ce \<Longrightarrow> fits K (ce - cb) \<Longrightarrow> cb < ce \<Longrightarrow>
    b \<le> cb \<Longrightarrow> ce \<le> e \<Longrightarrow>
    (\<forall>k. cb \<le> k \<and> k < ce \<longrightarrow> value_at K U cb ce n k = v) \<Longrightarrow>
    legacy_rangeGet_value K C I U b e cb ce n = Some (Inr (legacy_segInitializer I v (ce - cb)))"
proof (induction "nat (ce - cb)" arbitrary: cb ce n rule: less_induct)
  case less
  have ov: "b < ce" "cb < e"
    using less.prems(4,5,6) by linarith+
  show ?case
  proof (cases n)
    case (Leaf w)
    have "value_at K U cb ce n cb = v"
      using less.prems by simp
    then have "w = v"
      using Leaf by simp
    then show ?thesis
      using Leaf ov less.prems by (simp add: legacy_rangeGet_value_leaf wrap_fits)
  next
    case (Inner q l0 r0)
    obtain l r where op: "opened U n = Inner None l r"
      by (rule opened_cases)
    let ?m = "mid K cb ce"
    have span: "cb < ?m" "?m < ce"
      using less.prems(1) Inner mid_between [OF less.prems(2)] by auto
    have no: "no_overflow K cb ?m" "no_overflow K ?m ce"
      using no_overflow_span [OF less.prems(2)] span by auto
    have ft: "fits K (?m - cb)" "fits K (ce - ?m)"
      using fits_length [OF less.prems(3)] span by auto
    have wf: "well_formed K cb ?m l" "well_formed K ?m ce r"
      using well_formed_opened [OF less.prems(1) op] by auto
    have va: "value_at K U cb ce (Inner None l r) k = v" if "cb \<le> k" "k < ce" for k
      using value_at_opened [of K U cb ce n k] op less.prems(7) that by simp
    have vl: "\<forall>k. cb \<le> k \<and> k < ?m \<longrightarrow> value_at K U cb ?m l k = v"
    proof (intro allI impI)
      fix k assume "cb \<le> k \<and> k < ?m"
      then show "value_at K U cb ?m l k = v"
        using va [of k] span by (simp add: Let_def)
    qed
    have vr: "\<forall>k. ?m \<le> k \<and> k < ce \<longrightarrow> value_at K U ?m ce r k = v"
    proof (intro allI impI)
      fix k assume "?m \<le> k \<and> k < ce"
      then show "value_at K U ?m ce r k = v"
        using va [of k] span by (simp add: Let_def)
    qed
    have L: "legacy_rangeGet_value K C I U b e cb ?m l
        = Some (Inr (legacy_segInitializer I v (?m - cb)))"
      using less.hyps [of ?m cb l] wf no ft vl span less.prems(5,6) by simp
    have R: "legacy_rangeGet_value K C I U b e ?m ce r
        = Some (Inr (legacy_segInitializer I v (ce - ?m)))"
      using less.hyps [of ce ?m r] wf no ft vr span less.prems(5,6) by simp
    have "legacy_segCombiner C (legacy_segInitializer I v (?m - cb))
        (legacy_segInitializer I v (ce - ?m)) x y
        = legacy_segInitializer I v ((?m - cb) + (ce - ?m))" for x y
      using assms span unfolding legacy_consistent_def by simp
    then have comb: "legacy_segCombiner C (legacy_segInitializer I v (?m - cb))
        (legacy_segInitializer I v (ce - ?m)) x y = legacy_segInitializer I v (ce - cb)" for x y
      by simp
    have nl: "\<not> (ce \<le> e \<and> b \<le> cb \<and> isLeaf n)"
      using Inner by simp
    have dir: "\<not> b \<ge> ?m" "\<not> e \<le> ?m"
      using span less.prems(5,6) by linarith+
    show ?thesis
      unfolding legacy_rangeGet_value_descend [OF ov nl op]
      using L R comb dir by simp
  qed
qed

lemma legacy_rangeGet_value_cong:
  assumes "legacy_consistent C I"
  shows "well_formed K cb ce n \<Longrightarrow> well_formed K cb ce n' \<Longrightarrow> no_overflow K cb ce \<Longrightarrow>
    fits K (ce - cb) \<Longrightarrow> cb < ce \<Longrightarrow> same_on K U cb ce n n' \<Longrightarrow>
    legacy_rangeGet_value K C I U b e cb ce n = legacy_rangeGet_value K C I U b e cb ce n'"
proof (induction "nat (ce - cb)" arbitrary: cb ce n n' rule: less_induct)
  case less
  have same: "\<forall>k. cb \<le> k \<and> k < ce \<longrightarrow> value_at K U cb ce n k = value_at K U cb ce n' k"
    using less.prems(6) by (simp add: same_on_def)
  show ?case
  proof (cases "b \<ge> ce \<or> cb \<ge> e")
    case True
    then show ?thesis by (simp add: legacy_rangeGet_value_outside)
  next
    case False
    then have ov: "b < ce" "cb < e" by auto
    show ?thesis
    proof (cases "ce \<le> e \<and> b \<le> cb \<and> (isLeaf n \<or> isLeaf n')")
      case True
      then have cov: "b \<le> cb" "ce \<le> e" by auto
      from True consider (a) "isLeaf n" | (b) "isLeaf n'" by auto
      then show ?thesis
      proof cases
        case a
        then obtain v where n: "n = Leaf v" by (cases n) auto
        have "\<forall>k. cb \<le> k \<and> k < ce \<longrightarrow> value_at K U cb ce n' k = v"
          using same n by auto
        then have "legacy_rangeGet_value K C I U b e cb ce n'
            = Some (Inr (legacy_segInitializer I v (ce - cb)))"
          using legacy_rangeGet_value_uniform
            [OF assms less.prems(2) less.prems(3) less.prems(4) less.prems(5) cov]
          by blast
        then show ?thesis
          using n ov cov less.prems(4) by (simp add: legacy_rangeGet_value_leaf wrap_fits)
      next
        case b
        then obtain v where n: "n' = Leaf v" by (cases n') auto
        have "\<forall>k. cb \<le> k \<and> k < ce \<longrightarrow> value_at K U cb ce n k = v"
          using same n by auto
        then have "legacy_rangeGet_value K C I U b e cb ce n
            = Some (Inr (legacy_segInitializer I v (ce - cb)))"
          using legacy_rangeGet_value_uniform
            [OF assms less.prems(1) less.prems(3) less.prems(4) less.prems(5) cov]
          by blast
        then show ?thesis
          using n ov cov less.prems(4) by (simp add: legacy_rangeGet_value_leaf wrap_fits)
      qed
    next
      case False
      then have nl: "\<not> (ce \<le> e \<and> b \<le> cb \<and> isLeaf n)" "\<not> (ce \<le> e \<and> b \<le> cb \<and> isLeaf n')"
        by auto
      obtain l r where op: "opened U n = Inner None l r"
        by (rule opened_cases)
      obtain l' r' where op': "opened U n' = Inner None l' r'"
        by (rule opened_cases)
      let ?m = "mid K cb ce"
      have "cb + 2 \<le> ce"
        using opened_span [OF less.prems(1), of e b] ov nl(1) by auto
      then have span: "cb < ?m" "?m < ce"
        using mid_between [OF less.prems(3)] by auto
      have no: "no_overflow K cb ?m" "no_overflow K ?m ce"
        using no_overflow_span [OF less.prems(3)] span by auto
      have ft: "fits K (?m - cb)" "fits K (ce - ?m)"
        using fits_length [OF less.prems(4)] span by auto
      have wf: "well_formed K cb ?m l" "well_formed K ?m ce r"
        using well_formed_opened [OF less.prems(1) op] by auto
      have wf': "well_formed K cb ?m l'" "well_formed K ?m ce r'"
        using well_formed_opened [OF less.prems(2) op'] by auto
      have va: "value_at K U cb ce (Inner None l r) k = value_at K U cb ce (Inner None l' r') k"
        if "cb \<le> k" "k < ce" for k
        using value_at_opened [of K U cb ce n k] value_at_opened [of K U cb ce n' k] op op'
          same that by simp
      have vl: "same_on K U cb ?m l l'"
        unfolding same_on_def
      proof (intro allI impI)
        fix k assume "cb \<le> k \<and> k < ?m"
        then show "value_at K U cb ?m l k = value_at K U cb ?m l' k"
          using va [of k] span by (simp add: Let_def)
      qed
      have vr: "same_on K U ?m ce r r'"
        unfolding same_on_def
      proof (intro allI impI)
        fix k assume "?m \<le> k \<and> k < ce"
        then show "value_at K U ?m ce r k = value_at K U ?m ce r' k"
          using va [of k] span by (simp add: Let_def)
      qed
      have L: "legacy_rangeGet_value K C I U b e cb ?m l
          = legacy_rangeGet_value K C I U b e cb ?m l'"
        using less.hyps [of ?m cb l l'] wf wf' no ft vl span by simp
      have R: "legacy_rangeGet_value K C I U b e ?m ce r
          = legacy_rangeGet_value K C I U b e ?m ce r'"
        using less.hyps [of ce ?m r r'] wf wf' no ft vr span by simp
      show ?thesis
        unfolding legacy_rangeGet_value_descend [OF ov nl(1) op]
          legacy_rangeGet_value_descend [OF ov nl(2) op'] L R ..
    qed
  qed
qed

lemma legacy_rangeGetImpl_preserves:
  "well_formed K cb ce n \<Longrightarrow> no_overflow K cb ce \<Longrightarrow>
   legacy_rangeGetImpl K C I U b e cb ce n = Some (Inr (x, n')) \<Longrightarrow>
   well_formed K cb ce n' \<and> (\<forall>k. value_at K U cb ce n' k = value_at K U cb ce n k)"
proof (induction "nat (ce - cb)" arbitrary: cb ce n x n' rule: less_induct)
  case less
  have "\<not> (b \<ge> ce \<or> cb \<ge> e)"
  proof
    assume "b \<ge> ce \<or> cb \<ge> e"
    then have "legacy_rangeGetImpl K C I U b e cb ce n = Some (Inl assertion_failed)"
      by (simp add: legacy_rangeGetImpl.simps)
    with less.prems(3) show False by simp
  qed
  then have ov: "b < ce" "cb < e"
    by linarith+
  show ?case
  proof (cases "ce \<le> e \<and> b \<le> cb \<and> isLeaf n")
    case True
    then obtain v where "n = Leaf v" by (cases n) auto
    then have "n' = n"
      using less.prems(3) ov True by (simp add: legacy_rangeGetImpl_leaf)
    then show ?thesis using less.prems(1) by simp
  next
    case False
    obtain l r where op: "opened U n = Inner None l r"
      by (rule opened_cases)
    let ?m = "mid K cb ce"
    have two: "cb + 2 \<le> ce"
      using opened_span [OF less.prems(1), of e b] ov False by auto
    then have span: "cb < ?m" "?m < ce"
      using mid_between [OF less.prems(2)] by auto
    have no: "no_overflow K cb ?m" "no_overflow K ?m ce"
      using no_overflow_span [OF less.prems(2)] span by auto
    have wf: "well_formed K cb ?m l" "well_formed K ?m ce r"
      using well_formed_opened [OF less.prems(1) op] by auto
    have old: "value_at K U cb ce n k = value_at K U cb ce (Inner None l r) k" for k
      using value_at_opened [of K U cb ce n k] op by simp
    note eq = less.prems(3) [unfolded legacy_rangeGetImpl_descend_node [OF ov False op]]
    have L: "well_formed K cb ?m l' \<and> (\<forall>k. value_at K U cb ?m l' k = value_at K U cb ?m l k)"
      if "legacy_rangeGetImpl K C I U b e cb ?m l = Some (Inr (y, l'))" for y l'
      using less.hyps [of ?m cb l y l'] wf no span that by simp
    have R: "well_formed K ?m ce r' \<and> (\<forall>k. value_at K U ?m ce r' k = value_at K U ?m ce r k)"
      if "legacy_rangeGetImpl K C I U b e ?m ce r = Some (Inr (y, r'))" for y r'
      using less.hyps [of ce ?m r y r'] wf no span that by simp
    consider (right) "b \<ge> ?m" | (left) "\<not> b \<ge> ?m" "e \<le> ?m" | (both) "\<not> b \<ge> ?m" "\<not> e \<le> ?m"
      by blast
    then show ?thesis
    proof cases
      case right
      then obtain r' where "legacy_rangeGetImpl K C I U b e ?m ce r = Some (Inr (x, r'))"
        "n' = Inner None l r'"
        using eq by (auto split: sum.splits Option.bind_splits)
      then show ?thesis
        using R [of x r'] wf two old by (simp add: Let_def)
    next
      case left
      then obtain l' where "legacy_rangeGetImpl K C I U b e cb ?m l = Some (Inr (x, l'))"
        "n' = Inner None l' r"
        using eq by (auto split: sum.splits Option.bind_splits)
      then show ?thesis
        using L [of x l'] wf two old by (simp add: Let_def)
    next
      case both
      then obtain lv l' rv r' where
        "legacy_rangeGetImpl K C I U b e cb ?m l = Some (Inr (lv, l'))"
        "legacy_rangeGetImpl K C I U b e ?m ce r = Some (Inr (rv, r'))" "n' = Inner None l' r'"
        using eq by (auto split: sum.splits Option.bind_splits)
      then show ?thesis
        using L [of lv l'] R [of rv r'] two old by (simp add: Let_def)
    qed
  qed
qed

lemma same_values_legacy_set:
  assumes "same_values K U t t'"
  shows "\<exists>t1 t1'. legacy_set K U t b e v = Some t1 \<and> legacy_set K U t' b e v = Some t1'
    \<and> same_values K U t1 t1'"
proof -
  let ?bg = "tree_begin t" and ?en = "tree_end t"
  have a: "tree_begin t' = ?bg" "tree_end t' = ?en" "?bg < ?en" "no_overflow K ?bg ?en"
    "legacy_no_overflow K ?bg ?en"
    "well_formed K ?bg ?en (rootNode t)" "well_formed K ?bg ?en (rootNode t')"
    "same_on K U ?bg ?en (rootNode t) (rootNode t')"
    using assms by (simp_all add: same_values_def legacy_no_overflow_def)
  obtain n1 where n1: "legacy_setImpl K U b e ?bg ?en (rootNode t) v = Some n1"
    "\<forall>k. ?bg \<le> k \<and> k < ?en \<longrightarrow> value_at K U ?bg ?en n1 k
        = (if b \<le> k \<and> k < e then v else value_at K U ?bg ?en (rootNode t) k)"
    "well_formed K ?bg ?en n1"
    using legacy_setImpl_value_at [OF a(4), of U b e "rootNode t" v] a(6) by auto
  obtain n1' where n1': "legacy_setImpl K U b e ?bg ?en (rootNode t') v = Some n1'"
    "\<forall>k. ?bg \<le> k \<and> k < ?en \<longrightarrow> value_at K U ?bg ?en n1' k
        = (if b \<le> k \<and> k < e then v else value_at K U ?bg ?en (rootNode t') k)"
    "well_formed K ?bg ?en n1'"
    using legacy_setImpl_value_at [OF a(4), of U b e "rootNode t'" v] a(7) by auto
  have "same_on K U ?bg ?en n1 n1'"
    using n1(2) n1'(2) a(8) by (simp add: same_on_def)
  then show ?thesis
    using n1 n1' a by (simp add: legacy_set_def same_values_def)
qed

lemma same_values_legacy_update:
  assumes "same_values K U t t'"
  shows "\<exists>t1 t1'. legacy_update K U t b e a = Some t1 \<and> legacy_update K U t' b e a = Some t1'
    \<and> same_values K U t1 t1'"
proof -
  let ?bg = "tree_begin t" and ?en = "tree_end t"
  have a: "tree_begin t' = ?bg" "tree_end t' = ?en" "?bg < ?en" "no_overflow K ?bg ?en"
    "legacy_no_overflow K ?bg ?en"
    "well_formed K ?bg ?en (rootNode t)" "well_formed K ?bg ?en (rootNode t')"
    "same_on K U ?bg ?en (rootNode t) (rootNode t')"
    using assms by (simp_all add: same_values_def legacy_no_overflow_def)
  obtain n1 where n1: "legacy_updateImpl K U b e ?bg ?en (rootNode t) a = Some n1"
    "\<forall>k. ?bg \<le> k \<and> k < ?en \<longrightarrow> value_at K U ?bg ?en n1 k
        = (if b \<le> k \<and> k < e then U (value_at K U ?bg ?en (rootNode t) k) a
           else value_at K U ?bg ?en (rootNode t) k)"
    "well_formed K ?bg ?en n1"
    using legacy_updateImpl_value_at [OF a(4), of U b e "rootNode t" a] a(6) by auto
  obtain n1' where n1': "legacy_updateImpl K U b e ?bg ?en (rootNode t') a = Some n1'"
    "\<forall>k. ?bg \<le> k \<and> k < ?en \<longrightarrow> value_at K U ?bg ?en n1' k
        = (if b \<le> k \<and> k < e then U (value_at K U ?bg ?en (rootNode t') k) a
           else value_at K U ?bg ?en (rootNode t') k)"
    "well_formed K ?bg ?en n1'"
    using legacy_updateImpl_value_at [OF a(4), of U b e "rootNode t'" a] a(7) by auto
  have "same_on K U ?bg ?en n1 n1'"
    using n1(2) n1'(2) a(8) by (simp add: same_on_def)
  then show ?thesis
    using n1 n1' a by (simp add: legacy_update_def same_values_def)
qed

lemma getImpl_well_formed:
  "well_formed K cb ce (snd (getImpl K U k cb ce n)) = well_formed K cb ce n"
  using getImpl_topology [of K U k cb ce n] by (rule well_formed_topology)

lemma legacy_get_in_range_tree:
  assumes "tree_begin t \<le> k" "k < tree_end t"
  shows "legacy_get K U t k
    = (value_at K U (tree_begin t) (tree_end t) (rootNode t) k,
       t\<lparr>rootNode := snd (getImpl K U k (tree_begin t) (tree_end t) (rootNode t))\<rparr>)"
  using assms getImpl_value [of K U k "tree_begin t" "tree_end t" "rootNode t"]
  by (auto simp: legacy_get_def legacy_getImpl_eq split: prod.splits)

lemma same_values_legacy_get:
  assumes "same_values K U t t'"
  shows "fst (legacy_get K U t k) = fst (legacy_get K U t' k)
    \<and> same_values K U (snd (legacy_get K U t k)) (snd (legacy_get K U t' k))"
proof (cases "k \<ge> tree_end t \<or> k < tree_begin t")
  case True
  then show ?thesis
    using assms by (simp add: legacy_get_def same_values_def)
next
  case False
  then have k: "tree_begin t \<le> k" "k < tree_end t" "tree_begin t' \<le> k" "k < tree_end t'"
    using assms by (simp_all add: same_values_def)
  show ?thesis
    unfolding legacy_get_in_range_tree [OF k(1,2)] legacy_get_in_range_tree [OF k(3,4)]
    using assms k(1,2)
    by (simp add: same_values_def same_on_def getImpl_well_formed getImpl_value_at)
qed

lemma same_values_legacy_rangeGet:
  assumes "legacy_consistent C I" "same_values K U t t'"
  shows "(legacy_rangeGet K C I U t b e = None \<and> legacy_rangeGet K C I U t' b e = None)
    \<or> (\<exists>err. legacy_rangeGet K C I U t b e = Some (Inl err)
          \<and> legacy_rangeGet K C I U t' b e = Some (Inl err))
    \<or> (\<exists>x t1 t1'. legacy_rangeGet K C I U t b e = Some (Inr (x, t1))
          \<and> legacy_rangeGet K C I U t' b e = Some (Inr (x, t1')) \<and> same_values K U t1 t1')"
proof -
  let ?bg = "tree_begin t" and ?en = "tree_end t"
  have bounds: "tree_begin t' = ?bg" "tree_end t' = ?en" "?bg < ?en"
    and no: "no_overflow K ?bg ?en" "fits K (?en - ?bg)" "legacy_no_overflow K ?bg ?en"
    and wf: "well_formed K ?bg ?en (rootNode t)" "well_formed K ?bg ?en (rootNode t')"
    and va: "same_on K U ?bg ?en (rootNode t) (rootNode t')"
    using assms(2) by (simp_all add: same_values_def legacy_no_overflow_def)
  let ?r = "legacy_rangeGetImpl K C I U b e ?bg ?en (rootNode t)"
  let ?r' = "legacy_rangeGetImpl K C I U b e ?bg ?en (rootNode t')"
  have eq: "map_option (map_sum id fst) ?r = map_option (map_sum id fst) ?r'"
    using legacy_rangeGet_value_cong [OF assms(1) wf no(1,2) bounds(3) va]
    by (simp add: legacy_rangeGet_value_def)
  show ?thesis
  proof (cases ?r)
    case None
    then have "?r' = None"
      using eq by simp
    then show ?thesis
      using None bounds by (simp add: legacy_rangeGet_def)
  next
    case (Some res)
    show ?thesis
    proof (cases res)
      case (Inl err)
      then have "?r' = Some (Inl err)"
        using eq Some by (cases ?r') (auto simp: map_sum_def split: sum.splits)
      then show ?thesis
        using Some Inl bounds by (simp add: legacy_rangeGet_def)
    next
      case (Inr p)
      obtain x n1 where p: "p = (x, n1)" by (cases p)
      then obtain n1' where r': "?r' = Some (Inr (x, n1'))"
        using eq Some Inr by (cases ?r') (auto simp: map_sum_def split: sum.splits)
      have r: "?r = Some (Inr (x, n1))"
        using Some Inr p by simp
      have p1: "well_formed K ?bg ?en n1
          \<and> (\<forall>k. value_at K U ?bg ?en n1 k = value_at K U ?bg ?en (rootNode t) k)"
        using legacy_rangeGetImpl_preserves [OF wf(1) no(1) r] .
      have p2: "well_formed K ?bg ?en n1'
          \<and> (\<forall>k. value_at K U ?bg ?en n1' k = value_at K U ?bg ?en (rootNode t') k)"
        using legacy_rangeGetImpl_preserves [OF wf(2) no(1) r'] .
      have "same_values K U (t\<lparr>rootNode := n1\<rparr>) (t'\<lparr>rootNode := n1'\<rparr>)"
        using p1 p2 bounds va no(3) by (simp add: same_values_def same_on_def)
      then show ?thesis
        using r r' bounds by (simp add: legacy_rangeGet_def)
    qed
  qed
qed

lemma legacy_outputs_cong:
  assumes "legacy_consistent C I"
  shows "same_values K U t t' \<Longrightarrow>
    legacy_outputs K C I U t calls = legacy_outputs K C I U t' calls"
proof (induction calls arbitrary: t t')
  case Nil
  show ?case by simp
next
  case (Cons c calls)
  show ?case
  proof (cases c)
    case (SetCall b e v)
    obtain t1 t1' where "legacy_set K U t b e v = Some t1" "legacy_set K U t' b e v = Some t1'"
      "same_values K U t1 t1'"
      using same_values_legacy_set [OF Cons.prems] by blast
    then show ?thesis
      using SetCall Cons.IH [of t1 t1'] by simp
  next
    case (SetMoveCall b e v)
    obtain t1 t1' where "legacy_set K U t b e v = Some t1" "legacy_set K U t' b e v = Some t1'"
      "same_values K U t1 t1'"
      using same_values_legacy_set [OF Cons.prems] by blast
    then show ?thesis
      using SetMoveCall Cons.IH [of t1 t1'] by simp
  next
    case (UpdateCall b e a)
    obtain t1 t1' where "legacy_update K U t b e a = Some t1"
      "legacy_update K U t' b e a = Some t1'" "same_values K U t1 t1'"
      using same_values_legacy_update [OF Cons.prems] by blast
    then show ?thesis
      using UpdateCall Cons.IH [of t1 t1'] by simp
  next
    case (GetCall k)
    have g: "fst (legacy_get K U t k) = fst (legacy_get K U t' k)"
      "same_values K U (snd (legacy_get K U t k)) (snd (legacy_get K U t' k))"
      using same_values_legacy_get [OF Cons.prems] by simp_all
    show ?thesis
      using GetCall g(1) Cons.IH [OF g(2)] by (simp add: split_beta)
  next
    case (RangeGetCall b e)
    from same_values_legacy_rangeGet [OF assms Cons.prems, of b e] show ?thesis
    proof (elim disjE exE conjE)
      assume "legacy_rangeGet K C I U t b e = None" "legacy_rangeGet K C I U t' b e = None"
      then show ?thesis using RangeGetCall by simp
    next
      fix err
      assume "legacy_rangeGet K C I U t b e = Some (Inl err)"
        "legacy_rangeGet K C I U t' b e = Some (Inl err)"
      then show ?thesis using RangeGetCall by simp
    next
      fix x t1 t1'
      assume "legacy_rangeGet K C I U t b e = Some (Inr (x, t1))"
        "legacy_rangeGet K C I U t' b e = Some (Inr (x, t1'))" "same_values K U t1 t1'"
      then show ?thesis using RangeGetCall Cons.IH [of t1 t1'] by simp
    qed
  qed
qed

text \<open>
  A call of \<^verbatim>\<open>set\<close> or \<^verbatim>\<open>update\<close> with an empty range returns a tree that holds the
  same values; over an empty key range it returns the tree as it was.
\<close>

lemma legacy_update_empty_range_same_values:
  assumes "e \<le> b" "well_formed K (tree_begin t) (tree_end t) (rootNode t)"
    "tree_begin t < tree_end t" "legacy_no_overflow K (tree_begin t) (tree_end t)"
  shows "\<exists>t1. legacy_update K U t b e a = Some t1 \<and> same_values K U t1 t"
proof -
  let ?bg = "tree_begin t" and ?en = "tree_end t"
  have no: "no_overflow K ?bg ?en"
    using assms(4) by (simp add: legacy_no_overflow_def)
  obtain n1 where n1: "legacy_updateImpl K U b e ?bg ?en (rootNode t) a = Some n1"
    "\<forall>k. ?bg \<le> k \<and> k < ?en \<longrightarrow> value_at K U ?bg ?en n1 k
        = (if b \<le> k \<and> k < e then U (value_at K U ?bg ?en (rootNode t) k) a
           else value_at K U ?bg ?en (rootNode t) k)"
    "well_formed K ?bg ?en n1"
    using legacy_updateImpl_value_at [OF no, of U b e "rootNode t" a] assms(2) by auto
  have "same_on K U ?bg ?en n1 (rootNode t)"
    using n1(2) assms(1) by (auto simp: same_on_def)
  then show ?thesis
    using n1 assms by (simp add: legacy_update_def same_values_def)
qed

lemma legacy_set_empty_range_same_values:
  assumes "e \<le> b" "well_formed K (tree_begin t) (tree_end t) (rootNode t)"
    "tree_begin t < tree_end t" "legacy_no_overflow K (tree_begin t) (tree_end t)"
  shows "\<exists>t1. legacy_set K U t b e v = Some t1 \<and> same_values K U t1 t"
proof -
  let ?bg = "tree_begin t" and ?en = "tree_end t"
  have no: "no_overflow K ?bg ?en"
    using assms(4) by (simp add: legacy_no_overflow_def)
  obtain n1 where n1: "legacy_setImpl K U b e ?bg ?en (rootNode t) v = Some n1"
    "\<forall>k. ?bg \<le> k \<and> k < ?en \<longrightarrow> value_at K U ?bg ?en n1 k
        = (if b \<le> k \<and> k < e then v else value_at K U ?bg ?en (rootNode t) k)"
    "well_formed K ?bg ?en n1"
    using legacy_setImpl_value_at [OF no, of U b e "rootNode t" v] assms(2) by auto
  have "same_on K U ?bg ?en n1 (rootNode t)"
    using n1(2) assms(1) by (auto simp: same_on_def)
  then show ?thesis
    using n1 assms by (simp add: legacy_set_def same_values_def)
qed

lemma legacy_empty_tree:
  assumes "e \<le> b" "\<not> tree_begin t < tree_end t"
  shows "legacy_update K U t b e a = Some t" "legacy_set K U t b e v = Some t"
proof -
  have "b \<ge> tree_end t \<or> tree_begin t \<ge> e"
    using assms by linarith
  then show "legacy_update K U t b e a = Some t" "legacy_set K U t b e v = Some t"
    by (simp_all add: legacy_update_def legacy_set_def legacy_updateImpl_outside
        legacy_setImpl_outside)
qed

lemma legacy_outputs_empty_range:
  assumes "legacy_consistent C I" "e \<le> b"
    "well_formed K (tree_begin t) (tree_end t) (rootNode t)"
    "legacy_no_overflow K (tree_begin t) (tree_end t)"
  shows "\<exists>t1. legacy_update K U t b e a = Some t1
      \<and> legacy_outputs K C I U t1 calls = legacy_outputs K C I U t calls"
    "\<exists>t1. legacy_set K U t b e v = Some t1
      \<and> legacy_outputs K C I U t1 calls = legacy_outputs K C I U t calls"
proof -
  show "\<exists>t1. legacy_update K U t b e a = Some t1
      \<and> legacy_outputs K C I U t1 calls = legacy_outputs K C I U t calls"
  proof (cases "tree_begin t < tree_end t")
    case True
    obtain t1 where "legacy_update K U t b e a = Some t1" "same_values K U t1 t"
      using legacy_update_empty_range_same_values [OF assms(2,3) True assms(4)] by blast
    then show ?thesis
      using legacy_outputs_cong [OF assms(1), of K U t1 t calls] by simp
  next
    case False
    then show ?thesis using legacy_empty_tree(1) [OF assms(2) False] by simp
  qed
  show "\<exists>t1. legacy_set K U t b e v = Some t1
      \<and> legacy_outputs K C I U t1 calls = legacy_outputs K C I U t calls"
  proof (cases "tree_begin t < tree_end t")
    case True
    obtain t1 where "legacy_set K U t b e v = Some t1" "same_values K U t1 t"
      using legacy_set_empty_range_same_values [OF assms(2,3) True assms(4)] by blast
    then show ?thesis
      using legacy_outputs_cong [OF assms(1), of K U t1 t calls] by simp
  next
    case False
    then show ?thesis using legacy_empty_tree(2) [OF assms(2) False] by simp
  qed
qed

text \<open>
  Without the requirements on the tree, a call with an empty range leaves every key
  with its value.
\<close>

lemma legacy_empty_range_values:
  assumes "e \<le> b" "no_overflow K (tree_begin t) (tree_end t)"
  shows "\<exists>t1. legacy_set K U t b e v = Some t1
      \<and> (\<forall>k. fst (legacy_get K U t1 k) = fst (legacy_get K U t k))"
    "\<exists>t1. legacy_update K U t b e a = Some t1
      \<and> (\<forall>k. fst (legacy_get K U t1 k) = fst (legacy_get K U t k))"
proof -
  let ?bg = "tree_begin t" and ?en = "tree_end t"
  obtain n1 where n1: "legacy_setImpl K U b e ?bg ?en (rootNode t) v = Some n1"
    "\<forall>k. ?bg \<le> k \<and> k < ?en \<longrightarrow> value_at K U ?bg ?en n1 k
        = (if b \<le> k \<and> k < e then v else value_at K U ?bg ?en (rootNode t) k)"
    using legacy_setImpl_value_at [OF assms(2), of U b e "rootNode t" v] by auto
  have "fst (legacy_get K U (t\<lparr>rootNode := n1\<rparr>) k) = fst (legacy_get K U t k)" for k
  proof (cases "k \<ge> ?en \<or> k < ?bg")
    case True
    then show ?thesis by (simp add: legacy_get_def)
  next
    case False
    then show ?thesis
      using n1(2) assms(1)
        legacy_get_in_range [of "t\<lparr>rootNode := n1\<rparr>" k K U] legacy_get_in_range [of t k K U]
      by auto
  qed
  then show "\<exists>t1. legacy_set K U t b e v = Some t1
      \<and> (\<forall>k. fst (legacy_get K U t1 k) = fst (legacy_get K U t k))"
    using n1(1) by (simp add: legacy_set_def)
  obtain n2 where n2: "legacy_updateImpl K U b e ?bg ?en (rootNode t) a = Some n2"
    "\<forall>k. ?bg \<le> k \<and> k < ?en \<longrightarrow> value_at K U ?bg ?en n2 k
        = (if b \<le> k \<and> k < e then U (value_at K U ?bg ?en (rootNode t) k) a
           else value_at K U ?bg ?en (rootNode t) k)"
    using legacy_updateImpl_value_at [OF assms(2), of U b e "rootNode t" a] by auto
  have "fst (legacy_get K U (t\<lparr>rootNode := n2\<rparr>) k) = fst (legacy_get K U t k)" for k
  proof (cases "k \<ge> ?en \<or> k < ?bg")
    case True
    then show ?thesis by (simp add: legacy_get_def)
  next
    case False
    then show ?thesis
      using n2(2) assms(1)
        legacy_get_in_range [of "t\<lparr>rootNode := n2\<rparr>" k K U] legacy_get_in_range [of t k K U]
      by auto
  qed
  then show "\<exists>t1. legacy_update K U t b e a = Some t1
      \<and> (\<forall>k. fst (legacy_get K U t1 k) = fst (legacy_get K U t k))"
    using n2(1) by (simp add: legacy_update_def)
qed

subsection \<open>\<^verbatim>\<open>initChildrenSiftingValue\<close>\<close>

text \<open>
  When nothing throws, the node becomes a non-leaf with two constructed children that
  hold the copy and the moved (or copied) value, its own value is destroyed, and one
  block more is allocated: the \<open>initChildren\<close> of the tree model, for constructors
  that reproduce their argument.
\<close>

lemma initChildrenSiftingValue_returns:
  assumes "ptr node = None" "buffer node = Some v"
    "copy_construct T 0 v = Some lv" "construct_right_value T v = (Some rv, v')"
  shows "initChildrenSiftingValue T False node al =
     (Returned,
      \<lparr>ptr = Some \<lparr>left_constructed = True, left_value = Some lv,
                    right_constructed = True, right_value = Some rv\<rparr>,
       buffer = None\<rparr>,
      al\<lparr>allocated := allocated al + 1\<rparr>)"
  using assms by (simp add: initChildrenSiftingValue_def fresh_block_def)

text \<open>
  Every tree that in-contract calls build from a new tree is well formed, where no sum
  of two bounds of its key range overflows.
\<close>

lemma run_well_formed:
  assumes "list_all (in_contract bg en) calls" "no_overflow K bg en"
  shows "\<exists>t. run K C I U (construct bg en v0) calls = Some (Inr t)
    \<and> tree_begin t = bg \<and> tree_end t = en \<and> well_formed K bg en (rootNode t)"
  using run_represents [OF assms represents_construct [of K U bg en v0], of C I]
  by (auto simp: represents_def)

text \<open>
  After in-contract calls on a new tree, \<^verbatim>\<open>rangeGet\<close> returns the fold over the
  values that the naive reference holds.
\<close>

lemma rangeGet_after_calls:
  assumes "list_all (in_contract bg en) calls" "no_overflow K bg en"
    and "bg \<le> b" "b < e" "e \<le> en"
    and "associative_on C I (ref_run U v0 calls) b e" "consistent_on C I (ref_run U v0 calls) b e"
  shows "\<exists>t t'. run K C I U (construct bg en v0) calls = Some (Inr t)
    \<and> dst_rangeGet K C I U t b e = Some (Inr (ref_rangeGet C I (ref_run U v0 calls) b e, t'))"
proof -
  obtain t where t: "run K C I U (construct bg en v0) calls = Some (Inr t)"
    "represents K U t bg en (ref_run U v0 calls)"
    using run_represents [OF assms(1,2) represents_construct [of K U bg en v0], of C I]
    by (auto simp: ref_run_def)
  then have r: "well_formed K bg en (rootNode t)" "tree_begin t = bg" "tree_end t = en"
    and v: "\<forall>k. bg \<le> k \<and> k < en \<longrightarrow> value_at K U bg en (rootNode t) k = ref_run U v0 calls k"
    by (auto simp: represents_def)
  have "bg < e" "b < en" "bg < en"
    using assms(3,4,5) by auto
  from rangeGetImpl_correct [OF r(1) assms(2) assms(4) this, of C I U]
  obtain x n' where x: "rangeGetImpl K C I U b e bg en (rootNode t) = Some (Inr (x, n'))"
    and fold: "\<forall>f. associative_on C I f b e \<and> consistent_on C I f b e
               \<and> (\<forall>k. max bg b \<le> k \<and> k < min en e \<longrightarrow> value_at K U bg en (rootNode t) k = f k)
             \<longrightarrow> x = ref_rangeGet C I f (max bg b) (min en e)"
    by blast
  have m: "max bg b = b" "min en e = e"
    using assms(3,5) by auto
  have "\<forall>k. b \<le> k \<and> k < e \<longrightarrow> value_at K U bg en (rootNode t) k = ref_run U v0 calls k"
    using v assms(3,5) by auto
  then have "x = ref_rangeGet C I (ref_run U v0 calls) b e"
    using fold [rule_format, of "ref_run U v0 calls"] assms(6,7) m by simp
  then show ?thesis
    using t(1) x r by (simp add: dst_rangeGet_def)
qed

text \<open>
  A \<^verbatim>\<open>set\<close> with a non-empty range that misses the key range fails an assertion of
  \<^verbatim>\<open>setImpl_\<close>: \<^verbatim>\<open>set\<close> tests \<^verbatim>\<open>begin < end\<close> only.
\<close>

lemma dst_set_outside_key_range:
  "dst_set (Signed 32) (+) (construct 0 10 (0::int) :: (int, int) DynamicSegmentTree) 20 30 1
    = Some (Inl assertion_failed)"
  by code_simp

section \<open>The claims\<close>

subsection \<open>C1: \<^verbatim>\<open>get\<close> agrees with the naive reference\<close>

text \<open>
  C1 (as amended). Let no sum of two bounds of the key range \<open>[begin, end)\<close> overflow
  \<^verbatim>\<open>KeyT\<close>. For every construction over \<open>[begin, end)\<close> with the fill value \<open>v0\<close> and
  every finite sequence of \<^verbatim>\<open>set\<close> (of either overload), \<^verbatim>\<open>update\<close>,
  \<^verbatim>\<open>get\<close> and \<^verbatim>\<open>rangeGet\<close> calls in which every \<^verbatim>\<open>set\<close> and \<^verbatim>\<open>update\<close> has
  an empty range or a range that meets the key range, every \<^verbatim>\<open>get\<close> has its key in
  the key range and every \<^verbatim>\<open>rangeGet\<close> a non-empty range inside it, all the calls
  return with no error, and \<^verbatim>\<open>get(k)\<close> on the tree they leave returns, for every
  \<open>k\<close> of \<open>[begin, end)\<close>, the value the naive reference holds for \<open>k\<close>. Every prefix
  of such a sequence is such a sequence, so this covers a \<^verbatim>\<open>get\<close> at any point of
  it. The nodes are those with no update or with an update that takes an argument.
\<close>

theorem get_agrees_with_reference:
  assumes "no_overflow K bg en" and "list_all (in_contract bg en) calls"
    and "bg \<le> k" and "k < en"
  shows "get_after K C I U bg en v0 calls k = Some (Inr (ref_run U v0 calls k))"
proof -
  obtain t where t: "run K C I U (construct bg en v0) calls = Some (Inr t)"
    "represents K U t bg en (ref_run U v0 calls)"
    using run_represents [OF assms(2,1) represents_construct [of K U bg en v0], of C I]
    by (auto simp: ref_run_def)
  then have "tree_begin t \<le> k" "k < tree_end t"
    "value_at K U (tree_begin t) (tree_end t) (rootNode t) k = ref_run U v0 calls k"
    using assms(3,4) by (auto simp: represents_def)
  then show ?thesis
    using t(1) dst_get_value [of t k K U] by (auto simp: get_after_def)
qed

theorem get_agrees_with_reference_witness:
  "get_after (Signed 32) (ValueAndBordersGetCombiner (\<lambda>l r lb m re. l + r))
      (ValueAndBordersGetInitializer (\<lambda>v lb le. v * (le - lb))) (+) 0 42 (54::int)
      [UpdateCall 15 37 (18::int), RangeGetCall 5 30, UpdateCall 20 41 14,
       SetCall 7 7 1, GetCall 36, SetMoveCall 0 17 21, SetCall 30 50 3] 20
    = Some (Inr 86)
   \<and> get_after (Signed 32) (ValueAndBordersGetCombiner (\<lambda>l r lb m re. l + r))
      (ValueAndBordersGetInitializer (\<lambda>v lb le. v * (le - lb))) (+) 0 42 (54::int)
      [UpdateCall 15 37 (18::int), RangeGetCall 5 30, UpdateCall 20 41 14,
       SetCall 7 7 1, GetCall 36, SetMoveCall 0 17 21, SetCall 30 50 3] 16
    = Some (Inr 21)"
proof -
  let ?calls = "[UpdateCall 15 37 (18::int), RangeGetCall 5 30, UpdateCall 20 41 14,
       SetCall 7 7 (1::int), GetCall 36, SetMoveCall 0 17 21, SetCall 30 50 3]"
  have r: "ref_run (+) (54::int) ?calls 20 = 86" "ref_run (+) (54::int) ?calls 16 = 21"
    by (simp_all add: ref_run_def)
  have no: "no_overflow (Signed 32) 0 42"
    by (simp add: no_overflow_def)
  show ?thesis
    using get_agrees_with_reference [OF no, of ?calls 20
        "ValueAndBordersGetCombiner (\<lambda>l r lb m re. l + r)"
        "ValueAndBordersGetInitializer (\<lambda>v lb le. v * (le - lb))" "(+)" 54]
      get_agrees_with_reference [OF no, of ?calls 16
        "ValueAndBordersGetCombiner (\<lambda>l r lb m re. l + r)"
        "ValueAndBordersGetInitializer (\<lambda>v lb le. v * (le - lb))" "(+)" 54]
    by (simp add: r)
qed

text \<open>
  The claim as stated fails where a sum of two bounds overflows: for
  \<^verbatim>\<open>KeyT = unsigned\<close> and the tree over \<open>[4000000000, 4294967295)\<close>, the call
  \<^verbatim>\<open>set(4000000000, 4000000001, 1)\<close> does not return, so that no \<^verbatim>\<open>get\<close> follows
  it; the reference holds 1 for the key 4000000000. It also fails for a \<^verbatim>\<open>set\<close>
  whose range is not empty and misses the key range, which \<^verbatim>\<open>set\<close> hands to
  \<^verbatim>\<open>setImpl_\<close> against its assertions: on the tree over \<open>[0, 10)\<close> the call
  \<^verbatim>\<open>set(20, 30, 1)\<close> fails an assertion, where the reference keeps 0 for the key 5.
\<close>

theorem get_disagrees_with_reference_counterexample:
  "get_after (Unsigned 32) (ValueGetCombiner min) (ValueGetInitializer (\<lambda>v. v)) (+)
      4000000000 4294967295 (0::int) [SetCall 4000000000 4000000001 (1::int)] 4000000000
    = None
   \<and> ref_run (+) (0::int) [SetCall 4000000000 4000000001 (1::int)] 4000000000 = 1
   \<and> get_after (Signed 32) (ValueGetCombiner min) (ValueGetInitializer (\<lambda>v. v)) (+)
      0 10 (0::int) [SetCall 20 30 (1::int)] 5
    = Some (Inl assertion_failed)
   \<and> ref_run (+) (0::int) [SetCall 20 30 (1::int)] 5 = 0"
proof -
  have "get_after (Unsigned 32) (ValueGetCombiner min) (ValueGetInitializer (\<lambda>v. v)) (+)
      4000000000 4294967295 (0::int) [SetCall 4000000000 4000000001 (1::int)] 4000000000
    = None"
    by (simp add: get_after_def dst_set_def construct_def setImpl_wrapped)
  moreover have "get_after (Signed 32) (ValueGetCombiner min) (ValueGetInitializer (\<lambda>v. v)) (+)
      0 10 (0::int) [SetCall 20 30 (1::int)] 5
    = Some (Inl assertion_failed)"
    by (simp add: get_after_def dst_set_def construct_def setImpl.simps)
  ultimately show ?thesis
    by (simp add: ref_run_def)
qed

subsection \<open>C2: \<^verbatim>\<open>rangeGet\<close> agrees with the naive reference\<close>




subsection \<open>C3: \<^verbatim>\<open>get\<close> outside the key range\<close>

text \<open>
  C3 (as amended). \<^verbatim>\<open>get(k)\<close> fails with \<^verbatim>\<open>std::out_of_range\<close> exactly when
  \<open>k < begin\<close> or \<open>k \<ge> end\<close>, and returns a value for every \<open>k\<close> with
  \<open>begin \<le> k < end\<close>. The message of the error is
  "Get operation for \<open>k\<close>, which is out of range.": it is a function of the key
  alone, which determines the key; it carries nothing of the tree's bounds.
\<close>

theorem dst_get_out_of_range:
  "(key < tree_begin t \<or> tree_end t \<le> key \<longrightarrow>
      dst_get K U t key =
        Inl (out_of_range (''Get operation for '' @ show_key key @ '', which is out of range.'')))
   \<and> (tree_begin t \<le> key \<and> key < tree_end t \<longrightarrow>
      (\<exists>v t'. dst_get K U t key = Inr (v, t')))
   \<and> (''Get operation for '' @ show_key key @ '', which is out of range.''
        = ''Get operation for '' @ show_key key' @ '', which is out of range.''
      \<longrightarrow> key = key')"
  using show_key_inj [of key key'] by (auto simp: dst_get_def split: prod.splits)

theorem dst_get_out_of_range_witness:
  "dst_get (Signed 32) (+) (construct 0 42 (54::int)) (42::int) =
     Inl (out_of_range ''Get operation for 42, which is out of range.'')
   \<and> dst_get (Signed 32) (+) (construct 0 42 (54::int)) (-1::int) =
     Inl (out_of_range ''Get operation for -1, which is out of range.'')
   \<and> (\<exists>v t'. dst_get (Signed 32) (+) (construct 0 42 (54::int)) (0::int) = Inr (v, t'))
   \<and> (\<exists>v t'. dst_get (Signed 32) (+) (construct 0 42 (54::int)) (41::int) = Inr (v, t'))"
proof -
  have s: "show_key 42 = ''42''" "show_key (-1) = ''-1''"
    by code_simp+
  show ?thesis
    using dst_get_out_of_range [of 42 "construct 0 42 54" "Signed 32" "(+)" 42]
      dst_get_out_of_range [of "-1" "construct 0 42 54" "Signed 32" "(+)" "-1"]
      dst_get_out_of_range [of 0 "construct 0 42 54" "Signed 32" "(+)" 0]
      dst_get_out_of_range [of 41 "construct 0 42 54" "Signed 32" "(+)" 41]
    by (simp add: construct_def s)
qed

text \<open>
  The claim as stated fails in its last part: the error does not carry the tree's
  bounds. Two trees with the bounds \<open>[0, 42)\<close> and \<open>[7, 10)\<close> raise the same error
  for the key 42.
\<close>

theorem dst_get_error_bounds_counterexample:
  "dst_get (Signed 32) (+) (construct 0 42 (54::int)) (42::int) =
     Inl (out_of_range ''Get operation for 42, which is out of range.'')
   \<and> dst_get (Signed 32) (+) (construct 7 10 (54::int)) (42::int) =
     Inl (out_of_range ''Get operation for 42, which is out of range.'')"
proof -
  have s: "show_key 42 = ''42''"
    by code_simp
  show ?thesis
    by (simp add: dst_get_def construct_def s)
qed

subsection \<open>C4: \<^verbatim>\<open>set\<close> and \<^verbatim>\<open>update\<close> with an empty range\<close>

text \<open>
  C4 (as amended). For every \<open>b \<ge> e\<close>: \<^verbatim>\<open>set(b, e, v)\<close> of \<^verbatim>\<open>dst/\<close>, by either
  overload, returns at once and leaves the tree as it was, so that every later call
  returns what it would have returned. In the first header, whose \<^verbatim>\<open>set\<close> and
  \<^verbatim>\<open>update\<close> have no test of the range, the calls \<^verbatim>\<open>set(b, e, v)\<close> and
  \<^verbatim>\<open>update(b, e, arg)\<close> return where no sum of two bounds of the key range
  overflows, and change the value of no key: \<^verbatim>\<open>get(k)\<close> returns for every \<open>k\<close> what
  it returned before. They may split leaves. Every later sequence of calls returns
  the same \<^verbatim>\<open>get\<close> and \<^verbatim>\<open>rangeGet\<close> results as without the call when the
  length of the key range is a key, every non-leaf node of the tree spans at least two
  keys, and the combiner, whatever lengths it is handed, combines the initializer's
  values for the two parts of a uniformly filled span to its value for the span.
\<close>

theorem empty_range_is_noop:
  assumes "e \<le> b"
  shows "dst_set K U t b e v = Some (Inr t) \<and> dst_set_move K U t b e v = Some (Inr t)
    \<and> (no_overflow K (tree_begin t) (tree_end t) \<longrightarrow>
        (\<exists>t1. legacy_set K U t b e v = Some t1
           \<and> (\<forall>k. fst (legacy_get K U t1 k) = fst (legacy_get K U t k))
           \<and> (fits K (tree_end t - tree_begin t)
                \<and> well_formed K (tree_begin t) (tree_end t) (rootNode t)
                \<and> legacy_consistent C I
              \<longrightarrow> legacy_outputs K C I U t1 calls = legacy_outputs K C I U t calls))
        \<and> (\<exists>t2. legacy_update K U t b e a = Some t2
           \<and> (\<forall>k. fst (legacy_get K U t2 k) = fst (legacy_get K U t k))
           \<and> (fits K (tree_end t - tree_begin t)
                \<and> well_formed K (tree_begin t) (tree_end t) (rootNode t)
                \<and> legacy_consistent C I
              \<longrightarrow> legacy_outputs K C I U t2 calls = legacy_outputs K C I U t calls)))"
proof (intro conjI impI)
  show "dst_set K U t b e v = Some (Inr t)"
    using assms by (simp add: dst_set_def)
  show "dst_set_move K U t b e v = Some (Inr t)"
    using assms by (simp add: dst_set_move_def)
next
  assume no: "no_overflow K (tree_begin t) (tree_end t)"
  obtain t1 where t1: "legacy_set K U t b e v = Some t1"
    "\<forall>k. fst (legacy_get K U t1 k) = fst (legacy_get K U t k)"
    using legacy_empty_range_values(1) [OF assms no] by blast
  have "legacy_outputs K C I U t1 calls = legacy_outputs K C I U t calls"
    if "fits K (tree_end t - tree_begin t)"
      "well_formed K (tree_begin t) (tree_end t) (rootNode t)" "legacy_consistent C I"
    using legacy_outputs_empty_range(2) [OF that(3) assms that(2), of U v calls] no that(1) t1(1)
    by (auto simp: legacy_no_overflow_def)
  then show "\<exists>t1. legacy_set K U t b e v = Some t1
           \<and> (\<forall>k. fst (legacy_get K U t1 k) = fst (legacy_get K U t k))
           \<and> (fits K (tree_end t - tree_begin t)
                \<and> well_formed K (tree_begin t) (tree_end t) (rootNode t)
                \<and> legacy_consistent C I
              \<longrightarrow> legacy_outputs K C I U t1 calls = legacy_outputs K C I U t calls)"
    using t1 by blast
next
  assume no: "no_overflow K (tree_begin t) (tree_end t)"
  obtain t2 where t2: "legacy_update K U t b e a = Some t2"
    "\<forall>k. fst (legacy_get K U t2 k) = fst (legacy_get K U t k)"
    using legacy_empty_range_values(2) [OF assms no] by blast
  have "legacy_outputs K C I U t2 calls = legacy_outputs K C I U t calls"
    if "fits K (tree_end t - tree_begin t)"
      "well_formed K (tree_begin t) (tree_end t) (rootNode t)" "legacy_consistent C I"
    using legacy_outputs_empty_range(1) [OF that(3) assms that(2), of U a calls] no that(1) t2(1)
    by (auto simp: legacy_no_overflow_def)
  then show "\<exists>t2. legacy_update K U t b e a = Some t2
           \<and> (\<forall>k. fst (legacy_get K U t2 k) = fst (legacy_get K U t k))
           \<and> (fits K (tree_end t - tree_begin t)
                \<and> well_formed K (tree_begin t) (tree_end t) (rootNode t)
                \<and> legacy_consistent C I
              \<longrightarrow> legacy_outputs K C I U t2 calls = legacy_outputs K C I U t calls)"
    using t2 by blast
qed

theorem empty_range_is_noop_witness:
  "dst_set (Signed 32) (+) (construct 0 4 (1::int)) 3 3 (7::int) = Some (Inr (construct 0 4 1))
   \<and> dst_set_move (Signed 32) (+) (construct 0 4 (1::int)) 3 3 (7::int)
       = Some (Inr (construct 0 4 1))
   \<and> (\<exists>t2. legacy_update (Signed 32) (+) (construct 0 4 (1::int)) 3 3 (5::int) = Some t2
        \<and> fst (legacy_get (Signed 32) (+) t2 3) = 1
        \<and> legacy_outputs (Signed 32) (ValueAndLengthCombiner (\<lambda>l r ll rl. l + r))
            (ValueAndLengthSegmentInitializer (\<lambda>v len. v * len)) (+) t2
            [RangeGetCall 0 4, UpdateCall 1 3 10, GetCall 2, RangeGetCall 0 4]
          = Some [Inr 4, Inr 11, Inr 24])"
proof -
  let ?C = "ValueAndLengthCombiner (\<lambda>(l::int) r ll rl. l + r)"
  let ?I = "ValueAndLengthSegmentInitializer (\<lambda>(v::int) len. v * len)"
  let ?t = "construct 0 4 (1::int) :: (int, int) DynamicSegmentTree"
  let ?calls = "[RangeGetCall 0 4, UpdateCall 1 3 (10::int), GetCall 2, RangeGetCall 0 4]
    :: (int, int) call list"
  have c: "legacy_consistent ?C ?I"
    by (simp add: legacy_consistent_def algebra_simps)
  have h: "no_overflow (Signed 32) (tree_begin ?t) (tree_end ?t)"
    "fits (Signed 32) (tree_end ?t - tree_begin ?t)"
    "well_formed (Signed 32) (tree_begin ?t) (tree_end ?t) (rootNode ?t)"
    by (simp_all add: construct_def no_overflow_def)
  have g: "fst (legacy_get (Signed 32) (+) ?t 3) = 1"
    by (simp add: legacy_get_def construct_def legacy_getImpl.simps)
  have o: "legacy_outputs (Signed 32) ?C ?I (+) ?t ?calls = Some [Inr 4, Inr 11, Inr 24]"
    by code_simp
  have e: "(3::int) \<le> 3"
    by simp
  from empty_range_is_noop [OF e, of "Signed 32" "(+)" ?t 7 ?C ?I ?calls 5]
  have s: "dst_set (Signed 32) (+) ?t 3 3 7 = Some (Inr ?t)"
    "dst_set_move (Signed 32) (+) ?t 3 3 7 = Some (Inr ?t)"
    and "\<exists>t2. legacy_update (Signed 32) (+) ?t 3 3 5 = Some t2
           \<and> (\<forall>k. fst (legacy_get (Signed 32) (+) t2 k) = fst (legacy_get (Signed 32) (+) ?t k))
           \<and> (fits (Signed 32) (tree_end ?t - tree_begin ?t)
                \<and> well_formed (Signed 32) (tree_begin ?t) (tree_end ?t) (rootNode ?t)
                \<and> legacy_consistent ?C ?I
              \<longrightarrow> legacy_outputs (Signed 32) ?C ?I (+) t2 ?calls
                  = legacy_outputs (Signed 32) ?C ?I (+) ?t ?calls)"
    using h(1) by blast+
  then obtain t2 where t2: "legacy_update (Signed 32) (+) ?t 3 3 5 = Some t2"
    "fst (legacy_get (Signed 32) (+) t2 3) = fst (legacy_get (Signed 32) (+) ?t 3)"
    "legacy_outputs (Signed 32) ?C ?I (+) t2 ?calls = legacy_outputs (Signed 32) ?C ?I (+) ?t ?calls"
    using h(2,3) c by blast
  have "fst (legacy_get (Signed 32) (+) t2 3) = 1"
    "legacy_outputs (Signed 32) ?C ?I (+) t2 ?calls = Some [Inr 4, Inr 11, Inr 24]"
    using t2(2,3) g o by (simp_all only:)
  then show ?thesis
    using s t2(1) by blast
qed

text \<open>
  The claim as stated fails for \<^verbatim>\<open>update\<close> of the first header and a later
  \<^verbatim>\<open>rangeGet\<close>: on the new tree over \<open>[0, 8)\<close> with the fill value 1, the call
  \<^verbatim>\<open>update(1, 1, 5)\<close> splits three leaves. Take the initializer that returns the
  length of its span and the combiner that adds the length of the right part to the
  aggregate of the left part: the pair counts the keys of a segment, and meets section
  3. Then \<^verbatim>\<open>rangeGet(0, 4)\<close> returns 6 after the call and 4 without it, since
  \<^verbatim>\<open>_rangeGetImpl\<close> hands the combiner \<^verbatim>\<open>end - m\<close> with the \<^verbatim>\<open>end\<close> of the
  query. With the combiner \<open>+\<close> and the initializer that returns the value, it
  returns 3 after the call and 1 without it. And where a sum of two bounds overflows
  the call may not return: for \<^verbatim>\<open>KeyT = unsigned\<close> and the tree over
  \<open>[4000000000, 4294967295)\<close>, \<^verbatim>\<open>update(4000000001, 4000000001, 5)\<close> does not.
\<close>

theorem legacy_update_empty_range_counterexample:
  "legacy_update (Signed 32) (+) (construct 0 8 (1::int) :: (int, int) DynamicSegmentTree) 1 1 5
     = Some \<lparr>rootNode = Inner None (Inner None (Inner None (Leaf 1) (Leaf 1)) (Leaf 1)) (Leaf 1),
             tree_begin = 0, tree_end = 8\<rparr>
   \<and> legacy_outputs (Signed 32) (ValueAndLengthCombiner (\<lambda>l r ll rl. l + rl))
       (ValueAndLengthSegmentInitializer (\<lambda>v len. len)) (+)
       \<lparr>rootNode = Inner None (Inner None (Inner None (Leaf (1::int)) (Leaf 1)) (Leaf 1)) (Leaf 1),
        tree_begin = 0, tree_end = 8\<rparr> [RangeGetCall 0 4 :: (int, int) call]
     = Some [Inr 6]
   \<and> legacy_outputs (Signed 32) (ValueAndLengthCombiner (\<lambda>l r ll rl. l + rl))
       (ValueAndLengthSegmentInitializer (\<lambda>v len. len)) (+)
       (construct 0 8 (1::int) :: (int, int) DynamicSegmentTree) [RangeGetCall 0 4]
     = Some [Inr 4]
   \<and> legacy_outputs (Signed 32) (ValueSegmentCombiner (+)) (ValueSegmentInitializer (\<lambda>v. v)) (+)
       \<lparr>rootNode = Inner None (Inner None (Inner None (Leaf (1::int)) (Leaf 1)) (Leaf 1)) (Leaf 1),
        tree_begin = 0, tree_end = 8\<rparr> [RangeGetCall 0 4 :: (int, int) call]
     = Some [Inr 3]
   \<and> legacy_outputs (Signed 32) (ValueSegmentCombiner (+)) (ValueSegmentInitializer (\<lambda>v. v)) (+)
       (construct 0 8 (1::int) :: (int, int) DynamicSegmentTree) [RangeGetCall 0 4]
     = Some [Inr 1]
   \<and> legacy_update (Unsigned 32) (+)
       (construct 4000000000 4294967295 (0::int) :: (int, int) DynamicSegmentTree)
       4000000001 4000000001 5
     = None"
proof -
  have "legacy_update (Unsigned 32) (+)
       (construct 4000000000 4294967295 (0::int) :: (int, int) DynamicSegmentTree)
       4000000001 4000000001 5
     = None"
    by (simp add: legacy_update_def construct_def legacy_updateImpl_wrapped)
  moreover have
    "legacy_update (Signed 32) (+) (construct 0 8 (1::int) :: (int, int) DynamicSegmentTree) 1 1 5
     = Some \<lparr>rootNode = Inner None (Inner None (Inner None (Leaf 1) (Leaf 1)) (Leaf 1)) (Leaf 1),
             tree_begin = 0, tree_end = 8\<rparr>
   \<and> legacy_outputs (Signed 32) (ValueAndLengthCombiner (\<lambda>l r ll rl. l + rl))
       (ValueAndLengthSegmentInitializer (\<lambda>v len. len)) (+)
       \<lparr>rootNode = Inner None (Inner None (Inner None (Leaf (1::int)) (Leaf 1)) (Leaf 1)) (Leaf 1),
        tree_begin = 0, tree_end = 8\<rparr> [RangeGetCall 0 4 :: (int, int) call]
     = Some [Inr 6]
   \<and> legacy_outputs (Signed 32) (ValueAndLengthCombiner (\<lambda>l r ll rl. l + rl))
       (ValueAndLengthSegmentInitializer (\<lambda>v len. len)) (+)
       (construct 0 8 (1::int) :: (int, int) DynamicSegmentTree) [RangeGetCall 0 4]
     = Some [Inr 4]
   \<and> legacy_outputs (Signed 32) (ValueSegmentCombiner (+)) (ValueSegmentInitializer (\<lambda>v. v)) (+)
       \<lparr>rootNode = Inner None (Inner None (Inner None (Leaf (1::int)) (Leaf 1)) (Leaf 1)) (Leaf 1),
        tree_begin = 0, tree_end = 8\<rparr> [RangeGetCall 0 4 :: (int, int) call]
     = Some [Inr 3]
   \<and> legacy_outputs (Signed 32) (ValueSegmentCombiner (+)) (ValueSegmentInitializer (\<lambda>v. v)) (+)
       (construct 0 8 (1::int) :: (int, int) DynamicSegmentTree) [RangeGetCall 0 4]
     = Some [Inr 1]"
    by code_simp
  ultimately show ?thesis
    by blast
qed

subsection \<open>C5: a \<^verbatim>\<open>set\<close> over the whole key range\<close>

text \<open>
  Where the assertions of \<^verbatim>\<open>setImpl_\<close> hold, which is wherever the key range is not
  empty, \<^verbatim>\<open>set(b, e, v)\<close> with \<open>b \<le> begin\<close>, \<open>e \<ge> end\<close> and \<open>b < e\<close>, by either
  overload, leaves the root a leaf holding \<open>v\<close>: a leaf has no children and no pending
  update, and \<^verbatim>\<open>get(k)\<close> then returns \<open>v\<close> for every \<open>k\<close> of \<open>[begin, end)\<close> and
  leaves the single leaf.
\<close>

lemma dst_set_whole_range_collapses:
  assumes "b \<le> tree_begin t" and "tree_end t \<le> e" and "tree_begin t < e" and "b < tree_end t"
    and "b < e"
  shows "dst_set K U t b e v = Some (Inr (t\<lparr>rootNode := Leaf v\<rparr>))
    \<and> (\<forall>k. tree_begin t \<le> k \<and> k < tree_end t \<longrightarrow>
          dst_get K U (t\<lparr>rootNode := Leaf v\<rparr>) k = Inr (v, t\<lparr>rootNode := Leaf v\<rparr>))"
  using assms by (auto simp: dst_set_def dst_get_def setImpl_cover getImpl_Leaf)

text \<open>
  C5. For every \<open>b \<le> begin\<close> and \<open>e \<ge> end\<close> with \<open>b < e\<close>, \<^verbatim>\<open>set(b, e, v)\<close> is
  claimed to leave the root a leaf holding \<open>v\<close>. On the tree over the empty key range
  \<open>[5, 5)\<close> the call \<^verbatim>\<open>set(0, 5, 1)\<close> has \<open>b \<le> begin\<close>, \<open>e \<ge> end\<close> and \<open>b < e\<close>;
  \<^verbatim>\<open>set\<close> tests \<^verbatim>\<open>begin < end\<close> only, and \<^verbatim>\<open>setImpl_\<close> fails its first assertion,
  \<^verbatim>\<open>currBegin < end\<close> ("currBegin must be checked before call."), before it comes
  to the covering test.
\<close>

theorem dst_set_empty_key_range_aborts:
  "dst_set (Signed 32) (+) (construct 5 5 (0::int) :: (int, int) DynamicSegmentTree) 0 5 1
    = Some (Inl assertion_failed)"
  by (simp add: dst_set_def construct_def setImpl.simps)

subsection \<open>C6: an update that meets a pending update\<close>

text \<open>
  C6. When \<^verbatim>\<open>Node::update\<close> with a binary operator runs on a non-leaf whose slot
  holds an argument \<open>old\<close>, it first applies \<open>old\<close> to both children (recursively, by
  \<^verbatim>\<open>update\<close> itself) and then stores exactly the new argument; the two arguments are
  never combined, and every key of the node then holds the former value updated with
  the new argument. The operator and the type of its argument are arbitrary.
\<close>

theorem update_pushes_old_pending:
  assumes "\<not> isLeaf n" and "updateValue n = Some old"
  shows "\<not> isLeaf (update U new n)
    \<and> updateValue (update U new n) = Some new
    \<and> getLeft (update U new n) = update U old (getLeft n)
    \<and> getRight (update U new n) = update U old (getRight n)
    \<and> value_at K U cb ce (update U new n) k = U (value_at K U cb ce n k) new"
  using assms by (cases n) (auto simp: value_at_update Let_def)

theorem update_pushes_old_pending_witness:
  "update (+) (14::int) (Inner (Some 18) (Leaf (54::int)) (Inner None (Leaf 1) (Leaf 2)))
     = Inner (Some 14) (Leaf 72) (Inner (Some 18) (Leaf 1) (Leaf 2))
   \<and> value_at (Signed 32) (+) 0 42
        (update (+) (14::int) (Inner (Some 18) (Leaf (54::int)) (Inner None (Leaf 1) (Leaf 2)))) 5
     = 86"
  using update_pushes_old_pending
    [of "Inner (Some 18) (Leaf 54) (Inner None (Leaf 1) (Leaf 2))" 18 "(+)" 14 "Signed 32" 0 42 5]
  by (simp add: mid_def signed_divide_int_def)

subsection \<open>C7: \<^verbatim>\<open>initChildrenSiftingValue\<close> exits by an exception\<close>

text \<open>
  C7 (as amended). For every leaf, if \<^verbatim>\<open>initChildrenSiftingValue\<close> exits by an
  exception, whether the allocation of the pair, the copy construction of the left
  child's value or the construction of the right child's value throws, then the node
  is again a leaf that holds a value, every child and child value constructed so far
  has been destroyed, and the allocation, if made, has been returned (the allocator is
  as before the call). The node is as it was before the call, with its original
  value, when the allocation or a copy construction threw, and when the move
  constructor of \<^verbatim>\<open>T\<close> leaves its source unchanged when it throws.
\<close>

theorem initChildren_exception_safety:
  assumes "ptr node = None" and "buffer node = Some v"
    and "initChildrenSiftingValue T allocate_throws node al = (Threw x, node', al')"
  shows "ptr node' = None \<and> (\<exists>w. buffer node' = Some w) \<and> al' = al
    \<and> (x \<noteq> right_value_construction \<or> move_construct T = None \<or> failed_move_keeps_source T
          \<longrightarrow> node' = node)"
proof -
  have same: "node\<lparr>ptr := None\<rparr> = node" "node\<lparr>ptr := None, buffer := Some v\<rparr> = node"
    using assms(1,2) by (cases node; simp)+
  have kept: "v' = v"
    if "failed_move_keeps_source T" "move_construct T = Some move" "move i v = (None, v')"
    for move i v'
    using that unfolding failed_move_keeps_source_def by (metis fst_conv snd_conv)
  show ?thesis
    using assms same kept
    by (auto simp: initChildrenSiftingValue_def Let_def deallocate_def fresh_block_def
          construct_right_value_def
        split: option.splits if_splits prod.splits)
qed

text \<open>
  The four exits: the allocation throws; the copy for the left child throws; \<^verbatim>\<open>T\<close>
  has no move constructor and the copy for the right child throws after the copy for
  the left child has succeeded; the move for the right child throws and leaves its
  source.
\<close>

theorem initChildren_exception_safety_witness:
  "initChildrenSiftingValue
      \<lparr>copy_construct = (\<lambda>i (v::int). if v < 0 then None else Some v), move_construct = None\<rparr>
      True \<lparr>ptr = None, buffer = Some 7\<rparr> \<lparr>allocated = 3, undestroyed = 0\<rparr>
     = (Threw allocation, \<lparr>ptr = None, buffer = Some 7\<rparr>, \<lparr>allocated = 3, undestroyed = 0\<rparr>)
   \<and> initChildrenSiftingValue
      \<lparr>copy_construct = (\<lambda>i (v::int). if v < 0 then None else Some v), move_construct = None\<rparr>
      False \<lparr>ptr = None, buffer = Some (- 7)\<rparr> \<lparr>allocated = 3, undestroyed = 0\<rparr>
     = (Threw left_value_construction, \<lparr>ptr = None, buffer = Some (- 7)\<rparr>,
        \<lparr>allocated = 3, undestroyed = 0\<rparr>)
   \<and> initChildrenSiftingValue
      \<lparr>copy_construct = (\<lambda>i (v::int). if i = 0 then Some v else None), move_construct = None\<rparr>
      False \<lparr>ptr = None, buffer = Some 7\<rparr> \<lparr>allocated = 3, undestroyed = 0\<rparr>
     = (Threw right_value_construction, \<lparr>ptr = None, buffer = Some 7\<rparr>,
        \<lparr>allocated = 3, undestroyed = 0\<rparr>)
   \<and> initChildrenSiftingValue
      \<lparr>copy_construct = (\<lambda>i (v::int). Some v),
       move_construct = Some (\<lambda>i v. (if v = 7 then None else Some v, v))\<rparr>
      False \<lparr>ptr = None, buffer = Some 7\<rparr> \<lparr>allocated = 3, undestroyed = 0\<rparr>
     = (Threw right_value_construction, \<lparr>ptr = None, buffer = Some 7\<rparr>,
        \<lparr>allocated = 3, undestroyed = 0\<rparr>)"
proof -
  let ?copy = "\<lparr>copy_construct = (\<lambda>i (v::int). if v < 0 then None else Some v),
                 move_construct = None\<rparr>"
  let ?second = "\<lparr>copy_construct = (\<lambda>i (v::int). if i = 0 then Some v else None),
                   move_construct = None\<rparr>"
  let ?move = "\<lparr>copy_construct = (\<lambda>i (v::int). Some v),
                 move_construct = Some (\<lambda>i v. (if v = 7 then None else Some v, v))\<rparr>"
  let ?al = "\<lparr>allocated = 3, undestroyed = 0\<rparr>"
  obtain n1 a1 where r1: "initChildrenSiftingValue ?copy True \<lparr>ptr = None, buffer = Some 7\<rparr> ?al
      = (Threw allocation, n1, a1)"
    by (simp add: initChildrenSiftingValue_def)
  obtain n2 a2 where r2: "initChildrenSiftingValue ?copy False \<lparr>ptr = None, buffer = Some (- 7)\<rparr> ?al
      = (Threw left_value_construction, n2, a2)"
    by (simp add: initChildrenSiftingValue_def)
  obtain n3 a3 where r3: "initChildrenSiftingValue ?second False \<lparr>ptr = None, buffer = Some 7\<rparr> ?al
      = (Threw right_value_construction, n3, a3)"
    by (simp add: initChildrenSiftingValue_def construct_right_value_def)
  obtain n4 a4 where r4: "initChildrenSiftingValue ?move False \<lparr>ptr = None, buffer = Some 7\<rparr> ?al
      = (Threw right_value_construction, n4, a4)"
    by (simp add: initChildrenSiftingValue_def construct_right_value_def)
  have "failed_move_keeps_source ?move"
    by (simp add: failed_move_keeps_source_def)
  then show ?thesis
    using initChildren_exception_safety [OF _ _ r1] initChildren_exception_safety [OF _ _ r2]
      initChildren_exception_safety [OF _ _ r3] initChildren_exception_safety [OF _ _ r4]
    by (simp add: r1 r2 r3 r4)
qed

text \<open>
  The claim as stated fails where \<^verbatim>\<open>T\<close> is move-constructible and its move
  constructor throws after it has changed its source: the handler destroys the
  children and returns the block, but the node is left with the changed value. Here
  the source holds 7, the failed move leaves 0 in it, and the node ends as a leaf
  holding 0.
\<close>

theorem initChildren_throwing_move_counterexample:
  "initChildrenSiftingValue
      \<lparr>copy_construct = (\<lambda>i (v::int). Some v), move_construct = Some (\<lambda>i v. (None, 0))\<rparr>
      False \<lparr>ptr = None, buffer = Some 7\<rparr> \<lparr>allocated = 3, undestroyed = 0\<rparr>
    = (Threw right_value_construction, \<lparr>ptr = None, buffer = Some 0\<rparr>,
       \<lparr>allocated = 3, undestroyed = 0\<rparr>)"
  by (simp add: initChildrenSiftingValue_def construct_right_value_def deallocate_def
      fresh_block_def)

subsection \<open>C8: the guards of \<^verbatim>\<open>_setImpl\<close> in the first header\<close>

text \<open>
  C8. For every key type, every tree state, every range \<open>[b, e)\<close>, with \<open>b < e\<close> or
  empty, and every value, \<^verbatim>\<open>set\<close> of the first header, whose \<^verbatim>\<open>_setImpl\<close> has
  the guards \<^verbatim>\<open>m >= currBegin + 1\<close> and \<^verbatim>\<open>currEnd >= begin + 1\<close>, and the same
  \<^verbatim>\<open>set\<close> over the recursion with the guards \<open>mid > begin\<close> and \<open>mid < end\<close>
  behave alike: either none of the two returns, which happens only where a sum of two
  bounds overflows, or both return, and then \<^verbatim>\<open>get(k)\<close> returns the same value on
  the two trees for every key \<open>k\<close>. Where no sum of two bounds of the key range
  overflows, both return.
\<close>

theorem legacy_setImpl_guards_equivalent:
  "((legacy_set K U t b e v = None \<and> legacy_set_corrected K U t b e v = None)
      \<or> (\<exists>t1 t2. legacy_set K U t b e v = Some t1 \<and> legacy_set_corrected K U t b e v = Some t2
            \<and> (\<forall>k. fst (legacy_get K U t1 k) = fst (legacy_get K U t2 k))))
    \<and> (no_overflow K (tree_begin t) (tree_end t) \<longrightarrow> legacy_set K U t b e v \<noteq> None)"
proof
  let ?bg = "tree_begin t" and ?en = "tree_end t"
  from legacy_setImpl_guards [of K U b e ?bg ?en "rootNode t" v]
  show "(legacy_set K U t b e v = None \<and> legacy_set_corrected K U t b e v = None)
      \<or> (\<exists>t1 t2. legacy_set K U t b e v = Some t1 \<and> legacy_set_corrected K U t b e v = Some t2
            \<and> (\<forall>k. fst (legacy_get K U t1 k) = fst (legacy_get K U t2 k)))"
  proof (elim disjE exE conjE)
    assume "legacy_setImpl K U b e ?bg ?en (rootNode t) v = None"
      "legacy_setImpl_corrected K U b e ?bg ?en (rootNode t) v = None"
    then show ?thesis
      by (simp add: legacy_set_def legacy_set_corrected_def)
  next
    fix n1 n2
    assume n: "legacy_setImpl K U b e ?bg ?en (rootNode t) v = Some n1"
      "legacy_setImpl_corrected K U b e ?bg ?en (rootNode t) v = Some n2"
      and s: "same_on K U ?bg ?en n1 n2"
    have "fst (legacy_get K U (t\<lparr>rootNode := n1\<rparr>) k) = fst (legacy_get K U (t\<lparr>rootNode := n2\<rparr>) k)"
      for k
    proof (cases "k \<ge> ?en \<or> k < ?bg")
      case True
      then show ?thesis by (simp add: legacy_get_def)
    next
      case False
      then show ?thesis
        using s legacy_get_in_range [of "t\<lparr>rootNode := n1\<rparr>" k K U]
          legacy_get_in_range [of "t\<lparr>rootNode := n2\<rparr>" k K U]
        by (auto simp: same_on_def)
    qed
    then show ?thesis
      using n by (simp add: legacy_set_def legacy_set_corrected_def)
  qed
  show "no_overflow K ?bg ?en \<longrightarrow> legacy_set K U t b e v \<noteq> None"
    using legacy_setImpl_value_at [of K ?bg ?en U b e "rootNode t" v]
    by (auto simp: legacy_set_def)
qed

theorem legacy_setImpl_guards_equivalent_witness:
  "\<exists>t1 t2. legacy_set (Signed 32) (+) (construct 0 42 (21::int)) 0 37 (73::int) = Some t1
     \<and> legacy_set_corrected (Signed 32) (+) (construct 0 42 (21::int)) 0 37 (73::int) = Some t2
     \<and> (\<forall>k. fst (legacy_get (Signed 32) (+) t1 k) = fst (legacy_get (Signed 32) (+) t2 k))"
proof -
  have "no_overflow (Signed 32) (tree_begin (construct 0 42 (21::int)))
      (tree_end (construct 0 42 (21::int)))"
    by (simp add: construct_def no_overflow_def)
  then show ?thesis
    using legacy_setImpl_guards_equivalent
      [of "Signed 32" "(+)" "construct 0 42 (21::int)" 0 37 "73::int"]
    by auto
qed

text \<open>
  After an overflow the two trees can differ in children that no \<^verbatim>\<open>get\<close> looks
  into: for \<^verbatim>\<open>KeyT = unsigned\<close> and the tree over \<open>[1000, 4294967295)\<close>, the
  midpoint of the root is 499, the recursion with the guards of section 9 sets the
  left child of the root, and \<^verbatim>\<open>_setImpl\<close> as written leaves it.
\<close>

lemma legacy_set_guards_trees_differ:
  "map_option (getLeft \<circ> rootNode)
      (legacy_set (Unsigned 32) (+)
         (construct 1000 4294967295 (0::int) :: (int, int) DynamicSegmentTree) 100 3000 7)
     = Some (Leaf 0)
   \<and> map_option (getLeft \<circ> rootNode)
      (legacy_set_corrected (Unsigned 32) (+)
         (construct 1000 4294967295 (0::int) :: (int, int) DynamicSegmentTree) 100 3000 7)
     = Some (Leaf 7)"
  by code_simp

subsection \<open>C9: \<^verbatim>\<open>get\<close> of the first header outside the key range\<close>

text \<open>
  C9. In the first header, \<^verbatim>\<open>get(k)\<close> with \<open>k < begin\<close> or \<open>k \<ge> end\<close> raises
  nothing: it returns \<^verbatim>\<open>ValueT{}\<close> (0 for \<^verbatim>\<open>int\<close>) and leaves the tree unchanged.
\<close>

theorem legacy_get_out_of_range:
  assumes "key < tree_begin t \<or> tree_end t \<le> key"
  shows "legacy_get K U t key = (0, t)"
  using assms by (auto simp: legacy_get_def)

theorem legacy_get_out_of_range_witness:
  "legacy_get (Signed 32) (+) (construct 0 42 (54::int)) 42 = (0, construct 0 42 54)
   \<and> legacy_get (Signed 32) (+) (construct 0 42 (54::int)) 73 = (0, construct 0 42 54)
   \<and> legacy_get (Signed 32) (+) (construct 0 42 (54::int)) (-5) = (0, construct 0 42 54)"
  using legacy_get_out_of_range [of 42 "construct 0 42 54" "Signed 32" "(+)"]
    legacy_get_out_of_range [of 73 "construct 0 42 54" "Signed 32" "(+)"]
    legacy_get_out_of_range [of "-5" "construct 0 42 54" "Signed 32" "(+)"]
  by (simp add: construct_def)

subsection \<open>C10: \<^verbatim>\<open>get\<close> allocates and frees nothing\<close>

text \<open>
  C10. For every tree and every key \<open>k\<close> of \<open>[begin, end)\<close>, \<^verbatim>\<open>get(k)\<close> returns and
  leaves the tree with the nodes it had: \<^verbatim>\<open>getImpl_\<close> never calls
  \<^verbatim>\<open>initChildren\<close>, and the sift only rewrites the values and the pending updates of
  nodes that exist. The bounds of the tree are unchanged as well. (Of the two
  queries only \<^verbatim>\<open>rangeGet\<close> creates nodes, see \<open>dst_rangeGet_creates_nodes\<close>.)
\<close>

theorem dst_get_keeps_topology:
  assumes "tree_begin t \<le> key" and "key < tree_end t"
  shows "\<exists>v t'. dst_get K U t key = Inr (v, t')
    \<and> topology_of (rootNode t') = topology_of (rootNode t)
    \<and> tree_begin t' = tree_begin t \<and> tree_end t' = tree_end t"
  using assms getImpl_topology [of K U key "tree_begin t" "tree_end t" "rootNode t"]
  by (auto simp: dst_get_def split: prod.splits)

theorem dst_get_keeps_topology_witness:
  "\<exists>v t'. dst_get (Signed 32) (+)
              \<lparr>rootNode = Inner (Some (18::int)) (Leaf (54::int)) (Inner None (Leaf 1) (Leaf 2)),
               tree_begin = 0, tree_end = 42\<rparr> 30 = Inr (v, t')
     \<and> topology_of (rootNode t') = InnerNode LeafNode (InnerNode LeafNode LeafNode)
     \<and> tree_begin t' = 0 \<and> tree_end t' = 42"
  using dst_get_keeps_topology
    [of "\<lparr>rootNode = Inner (Some (18::int)) (Leaf (54::int)) (Inner None (Leaf 1) (Leaf 2)),
          tree_begin = 0, tree_end = 42\<rparr>" 30 "Signed 32" "(+)"]
  by simp

end
